theory Spec2Isabelle
  imports Complex_Main "HOL-Library.AList"
begin

section \<open>Values of the host language\<close>

text \<open>
  The simulator \<^verbatim>\<open>vmsim.py\<close> is a Python 3 program. Its exceptions are values of
  the type \<open>error\<close>; a function that can raise returns \<open>error + 'a\<close>, with \<open>Inl\<close> for
  the exception.
\<close>

datatype error =
  IndexError | KeyError | ValueError | TypeError | ZeroDivisionError | OverflowError

text \<open>
  \<^verbatim>\<open>sys.maxsize\<close> on a 64-bit CPython.
\<close>

definition maxsize :: nat where
  "maxsize = 2 ^ 63 - 1"

subsection \<open>Floats\<close>

text \<open>
  A finite Python float is a mantissa and a binary exponent, \<open>Float m e\<close> for
  \<open>m * 2 ^ e\<close>, and \<open>float_val\<close> is the rational number it denotes; Python compares
  an \<^verbatim>\<open>int\<close> with a \<^verbatim>\<open>float\<close> by their exact values. The arithmetic rounds to
  binary64: 53 significant bits, to nearest, ties to even. The range of the exponent is
  modelled only where an \<^verbatim>\<open>int\<close> is converted, which raises when the result would
  not be finite; the other results of this program lie in the normal range.
\<close>

datatype float = Float int int

definition pow2 :: "int \<Rightarrow> rat" where
  "pow2 e = (if 0 \<le> e then 2 ^ nat e else 1 / 2 ^ nat (- e))"

fun float_val :: "float \<Rightarrow> rat" where
  "float_val (Float m e) = of_int m * pow2 e"

fun bit_length :: "nat \<Rightarrow> nat" where
  "bit_length n = (if n = 0 then 0 else Suc (bit_length (n div 2)))"

declare bit_length.simps [simp del]

definition round_div :: "int \<Rightarrow> int \<Rightarrow> int" where
  \<comment> \<open>the integer nearest to \<open>x / y\<close>, ties to even, for \<open>0 \<le> x\<close> and \<open>0 < y\<close>\<close>
  "round_div x y =
     (let q = x div y; r = x mod y
      in if 2 * r < y then q
         else if y < 2 * r then q + 1
         else if even q then q else q + 1)"

definition round_mantissa :: "int \<Rightarrow> int \<Rightarrow> float" where
  \<comment> \<open>\<open>m * 2 ^ e\<close> rounded to 53 significant bits\<close>
  "round_mantissa m e =
     (let k = int (bit_length (nat \<bar>m\<bar>)) - 53
      in if k \<le> 0 then Float m e
         else Float (sgn m * round_div \<bar>m\<bar> (2 ^ nat k)) (e + k))"

definition int_to_float :: "int \<Rightarrow> error + float" where
  \<comment> \<open>the conversion of an \<^verbatim>\<open>int\<close> operand of a float operation; it raises from
     \<open>2 ^ 1024\<close> on\<close>
  "int_to_float n =
     (case round_mantissa n 0 of
        Float m e \<Rightarrow>
          if 1024 < bit_length (nat (\<bar>m\<bar> * 2 ^ nat e)) then Inl OverflowError
          else Inr (Float m e))"

definition true_div :: "int \<Rightarrow> int \<Rightarrow> error + float" where
  \<comment> \<open>\<^verbatim>\<open>a / b\<close> on two ints: the correctly rounded quotient. \<open>e\<close> is the exponent of
     the quotient, \<open>2 ^ e \<le> \<bar>a\<bar> / \<bar>b\<bar> < 2 ^ (e + 1)\<close>\<close>
  "true_div a b =
     (if b = 0 then Inl ZeroDivisionError
      else if a = 0 then Inr (Float 0 0)
      else
        let d = int (bit_length (nat \<bar>a\<bar>)) - int (bit_length (nat \<bar>b\<bar>));
            e = (if \<bar>b\<bar> * 2 ^ nat d \<le> \<bar>a\<bar> * 2 ^ nat (- d) then d else d - 1);
            s = 52 - e;
            m = round_div (\<bar>a\<bar> * 2 ^ nat s) (\<bar>b\<bar> * 2 ^ nat (- s))
        in Inr (Float (sgn a * sgn b * m) (- s)))"

definition float_mul :: "float \<Rightarrow> float \<Rightarrow> float" where
  "float_mul x y =
     (case (x, y) of (Float m e, Float m' e') \<Rightarrow> round_mantissa (m * m') (e + e'))"

definition float_mul_int :: "float \<Rightarrow> int \<Rightarrow> error + float" where
  \<comment> \<open>\<^verbatim>\<open>x * n\<close> for a float \<open>x\<close> and an int \<open>n\<close>\<close>
  "float_mul_int x n =
     (case int_to_float n of
        Inl e \<Rightarrow> Inl e
      | Inr y \<Rightarrow> Inr (float_mul x y))"

subsection \<open>Strings and \<^verbatim>\<open>int()\<close>\<close>

text \<open>
  A Python \<^verbatim>\<open>str\<close> is a \<open>string\<close>; a \<open>char\<close> stands for the code point of the same
  number, so the strings of the model are those over the code points below 256.
\<close>

definition is_space :: "char \<Rightarrow> bool" where
  \<comment> \<open>what \<^verbatim>\<open>int()\<close> strips from both ends of its argument\<close>
  "is_space c \<longleftrightarrow> of_char c \<in> {9, 10, 11, 12, 13, 32, 133, 160 :: nat}"

definition strip :: "string \<Rightarrow> string" where
  "strip s = rev (dropWhile is_space (rev (dropWhile is_space s)))"

definition digit_value :: "char \<Rightarrow> int option" where
  \<comment> \<open>the value of a hexadecimal digit\<close>
  "digit_value c =
     (let n = (of_char c :: nat)
      in if 48 \<le> n \<and> n \<le> 57 then Some (int n - 48)
         else if 65 \<le> n \<and> n \<le> 70 then Some (int n - 55)
         else if 97 \<le> n \<and> n \<le> 102 then Some (int n - 87)
         else None)"

fun digits :: "int \<Rightarrow> int \<Rightarrow> string \<Rightarrow> int option" where
  \<comment> \<open>digits of base \<open>b\<close>, single underscores allowed between them\<close>
  "digits b acc [] = Some acc"
| "digits b acc (c # cs) =
     (if c = CHR ''_'' then
        (case cs of
           [] \<Rightarrow> None
         | d # ds \<Rightarrow>
             (case digit_value d of
                None \<Rightarrow> None
              | Some v \<Rightarrow> if v < b then digits b (b * acc + v) ds else None))
      else
        (case digit_value c of
           None \<Rightarrow> None
         | Some v \<Rightarrow> if v < b then digits b (b * acc + v) cs else None))"

definition number :: "int \<Rightarrow> string \<Rightarrow> int option" where
  \<comment> \<open>a non-empty run of digits that starts with a digit\<close>
  "number b s =
     (case s of
        [] \<Rightarrow> None
      | c # cs \<Rightarrow>
          (case digit_value c of
             None \<Rightarrow> None
           | Some v \<Rightarrow> if v < b then digits b v cs else None))"

definition unsigned16 :: "string \<Rightarrow> int option" where
  \<comment> \<open>an optional \<^verbatim>\<open>0x\<close> or \<^verbatim>\<open>0X\<close>, one underscore allowed after it, then the digits\<close>
  "unsigned16 s =
     (case s of
        c # x # rest \<Rightarrow>
          if c = CHR ''0'' \<and> (x = CHR ''x'' \<or> x = CHR ''X'') then
            (case rest of
               u # rest' \<Rightarrow> if u = CHR ''_'' then number 16 rest' else number 16 rest
             | [] \<Rightarrow> None)
          else number 16 s
      | _ \<Rightarrow> number 16 s)"

definition int16 :: "string \<Rightarrow> error + int" where
  \<comment> \<open>\<^verbatim>\<open>int(s, 16)\<close>\<close>
  "int16 s =
     (let t = strip s;
          r = (case t of
                 [] \<Rightarrow> None
               | c # cs \<Rightarrow>
                   if c = CHR ''+'' then unsigned16 cs
                   else if c = CHR ''-'' then map_option uminus (unsigned16 cs)
                   else unsigned16 t)
      in case r of None \<Rightarrow> Inl ValueError | Some n \<Rightarrow> Inr n)"

definition int_of_char :: "char \<Rightarrow> error + nat" where
  \<comment> \<open>\<^verbatim>\<open>int(c)\<close> for a string of the one character \<open>c\<close>: the value of a decimal digit\<close>
  "int_of_char c =
     (let n = (of_char c :: nat)
      in if 48 \<le> n \<and> n \<le> 57 then Inr (n - 48) else Inl ValueError)"

definition split_space :: "string \<Rightarrow> string list" where
  \<comment> \<open>\<^verbatim>\<open>s.split(' ')\<close>: cut at every single space; empty fields are kept\<close>
  "split_space s =
     foldr (\<lambda>c fs. if c = CHR '' '' then [] # fs else (c # hd fs) # tl fs) s [[]]"

text \<open>
  \<^verbatim>\<open>int(math.log2(n))\<close> for an int \<open>n > 0\<close> is modelled by the exact integer part of
  the binary logarithm. The library computes the logarithm in binary64; the two agree
  while the logarithm of \<open>n\<close> is further than one unit in the last place from the next
  integer, which holds for every \<open>n\<close> below \<open>2 ^ 47\<close>.
\<close>

definition int_log2 :: "int \<Rightarrow> error + int" where
  "int_log2 n = (if n \<le> 0 then Inl ValueError else Inr (int (bit_length (nat n)) - 1))"

definition shift_right :: "int \<Rightarrow> int \<Rightarrow> error + int" where
  \<comment> \<open>\<^verbatim>\<open>a >> k\<close>: the floor of \<open>a / 2 ^ k\<close>; a negative count raises\<close>
  "shift_right a k = (if k < 0 then Inl ValueError else Inr (a div 2 ^ nat k))"

section \<open>The page table\<close>

text \<open>
  A \<^verbatim>\<open>dict\<close> iterates in the order its keys were first inserted: assigning to a key
  that is present keeps its place, a new key goes to the end, \<^verbatim>\<open>pop\<close> removes the
  key. It is an association list with \<open>AList.update\<close>, \<open>AList.delete\<close> and \<open>map_of\<close>.
  An entry of \<^verbatim>\<open>entries\<close> is the pair of the dirty bit and the line number; \<^verbatim>\<open>freq\<close>
  maps a page number to the line numbers of its accesses.
\<close>

type_synonym entry = "nat \<times> nat"

record page_table =
  frames :: float
  entries :: "(int \<times> entry) list"
  freq :: "(int \<times> nat list) list"

definition new_page_table :: "float \<Rightarrow> page_table" where
  "new_page_table n = \<lparr>frames = n, entries = [], freq = []\<rparr>"

definition isFull :: "page_table \<Rightarrow> bool" where
  "isFull t \<longleftrightarrow> of_nat (length (entries t)) = float_val (frames t)"

section \<open>The simulator\<close>

text \<open>
  The fields of \<^verbatim>\<open>virtual_memory_sim\<close>. An option that was not given on the command
  line is \<open>None\<close>. \<open>tracefile\<close> holds the lines that iterating over the opened trace
  file yields. \<open>sim_frames\<close> is the field \<^verbatim>\<open>frames\<close> of the simulator.
\<close>

record virtual_memory_sim =
  algorithm :: "string option"
  sim_frames :: "int option"
  page_size :: "int option"
  memory_split :: "string option"
  tracefile :: "string list"
  memory_accesses :: int
  page_faults :: int
  disk_writes :: int
  offset :: "int option"

definition init :: virtual_memory_sim where
  "init = \<lparr>algorithm = Some [], sim_frames = Some 0, page_size = Some 0,
     memory_split = Some [], tracefile = [], memory_accesses = 0, page_faults = 0,
     disk_writes = 0, offset = None\<rparr>"

text \<open>The namespace that the argument parser returns.\<close>

record contents =
  arg_algorithm :: "string option"
  numframes :: "int option"
  pagesize :: "int option"
  memorysplit :: "string option"
  arg_tracefile :: "string list"

definition parse_args :: "virtual_memory_sim \<Rightarrow> contents \<Rightarrow> error + virtual_memory_sim" where
  "parse_args vm c =
     (let vm1 = (if arg_algorithm c \<noteq> Some [] then vm\<lparr>algorithm := arg_algorithm c\<rparr> else vm);
          vm2 = (if numframes c \<noteq> Some 0 then vm1\<lparr>sim_frames := numframes c\<rparr> else vm1);
          rest = (\<lambda>vm3.
            let vm4 = (if memorysplit c \<noteq> Some []
                       then vm3\<lparr>memory_split := memorysplit c\<rparr> else vm3)
            in vm4\<lparr>tracefile := arg_tracefile c\<rparr>)
      in if pagesize c \<noteq> Some 0 then
           (case pagesize c of
              None \<Rightarrow> Inl TypeError
            | Some p \<Rightarrow>
                (case int_log2 p of
                   Inl e \<Rightarrow> Inl e
                 | Inr l \<Rightarrow> Inr (rest (vm2\<lparr>page_size := Some p, offset := Some (l + 10)\<rparr>))))
         else Inr (rest vm2))"

datatype split_result = Tables "page_table list" | MinusOne

definition split_memory :: "virtual_memory_sim \<Rightarrow> error + split_result" where
  "split_memory vm =
     (case memory_split vm of
        None \<Rightarrow> Inl TypeError
      | Some s \<Rightarrow>
          if length s < 1 then Inl IndexError
          else case int_of_char (s ! 0) of
            Inl e \<Rightarrow> Inl e
          | Inr a \<Rightarrow>
              if int a < 0 then Inr MinusOne
              else if length s < 3 then Inl IndexError
              else case int_of_char (s ! 2) of
                Inl e \<Rightarrow> Inl e
              | Inr b \<Rightarrow>
                  if int b < 0 then Inr MinusOne
                  else case true_div (int a) (int a + int b) of
                    Inl e \<Rightarrow> Inl e
                  | Inr ratio1 \<Rightarrow>
                      (case true_div (int b) (int a + int b) of
                         Inl e \<Rightarrow> Inl e
                       | Inr ratio2 \<Rightarrow>
                           (case sim_frames vm of
                              None \<Rightarrow> Inl TypeError
                            | Some n \<Rightarrow>
                                (case float_mul_int ratio1 n of
                                   Inl e \<Rightarrow> Inl e
                                 | Inr c1 \<Rightarrow>
                                     (case float_mul_int ratio2 n of
                                        Inl e \<Rightarrow> Inl e
                                      | Inr c2 \<Rightarrow>
                                          Inr (Tables [new_page_table c1,
                                                       new_page_table c2]))))))"

text \<open>
  A decoded reference: the dirty bit, the page number and the index of the table.
\<close>

type_synonym reference = "nat \<times> int \<times> nat"

definition parse_line :: "virtual_memory_sim \<Rightarrow> string \<Rightarrow> error + reference" where
  "parse_line vm line =
     (case split_space line of
        [] \<Rightarrow> Inl IndexError
      | op # rest \<Rightarrow>
          let dirty_bit = (if op = ''l'' then 0 else 1 :: nat)
          in case rest of
            [] \<Rightarrow> Inl IndexError
          | addr # rest' \<Rightarrow>
              (case int16 addr of
                 Inl e \<Rightarrow> Inl e
               | Inr a \<Rightarrow>
                   (case offset vm of
                      None \<Rightarrow> Inl TypeError
                    | Some k \<Rightarrow>
                        (case shift_right a k of
                           Inl e \<Rightarrow> Inl e
                         | Inr frame \<Rightarrow>
                             (case rest' of
                                [] \<Rightarrow> Inl IndexError
                              | pid # _ \<Rightarrow>
                                  (case pid of
                                     [] \<Rightarrow> Inl IndexError
                                   | c # _ \<Rightarrow>
                                       (case int_of_char c of
                                          Inl e \<Rightarrow> Inl e
                                        | Inr table_idx \<Rightarrow>
                                            Inr (dirty_bit, frame, table_idx))))))))"

subsection \<open>Eviction\<close>

text \<open>
  The victim search of \<^verbatim>\<open>lru_sim\<close>. The loop runs over the keys of \<^verbatim>\<open>entries\<close> and
  reads the entry of each key, that is, over the items in iteration order; it carries
  \<^verbatim>\<open>frame_to_evict\<close> and \<^verbatim>\<open>lru\<close>.
\<close>

fun lru_scan :: "(int \<times> entry) list \<Rightarrow> int option \<Rightarrow> nat \<Rightarrow> int option" where
  "lru_scan [] frame_to_evict lru = frame_to_evict"
| "lru_scan ((key, d, n) # rest) frame_to_evict lru =
     (if n < lru then lru_scan rest (Some key) n
      else lru_scan rest frame_to_evict lru)"

definition lru_victim :: "page_table \<Rightarrow> int option" where
  "lru_victim t = lru_scan (entries t) None maxsize"

text \<open>
  The victim search of \<^verbatim>\<open>opt_sim\<close>; it carries \<^verbatim>\<open>frame_to_evict\<close>, \<^verbatim>\<open>nxt_access\<close>
  and \<^verbatim>\<open>lru\<close>. \<^verbatim>\<open>freq[key]\<close> raises on a missing key, \<^verbatim>\<open>freq[key][-1]\<close> on an empty
  list.
\<close>

fun opt_scan ::
  "(int \<times> nat list) list \<Rightarrow> (int \<times> entry) list \<Rightarrow> int option \<Rightarrow> int \<Rightarrow> nat
     \<Rightarrow> error + int option" where
  "opt_scan fq [] frame_to_evict nxt_access lru = Inr frame_to_evict"
| "opt_scan fq ((key, d, n) # rest) frame_to_evict nxt_access lru =
     (case map_of fq key of
        None \<Rightarrow> Inl KeyError
      | Some uses \<Rightarrow>
          if length uses = 0 \<and> n < lru then opt_scan fq rest (Some key) nxt_access n
          else if lru = maxsize then
            (if uses = [] then Inl IndexError
             else if nxt_access < int (last uses)
               then opt_scan fq rest (Some key) (int (last uses)) lru
               else opt_scan fq rest frame_to_evict nxt_access lru)
          else opt_scan fq rest frame_to_evict nxt_access lru)"

definition opt_victim :: "page_table \<Rightarrow> error + int option" where
  "opt_victim t = opt_scan (freq t) (entries t) None (- 1) maxsize"

text \<open>
  The end of the eviction branch, the same in both simulations: a disk write is
  counted when the victim is dirty, and the victim is removed. Looking up
  \<^verbatim>\<open>frame_to_evict\<close> when it is still \<^verbatim>\<open>None\<close> raises.
\<close>

definition evict ::
  "virtual_memory_sim \<Rightarrow> page_table \<Rightarrow> int option
     \<Rightarrow> error + virtual_memory_sim \<times> page_table" where
  "evict vm t frame_to_evict =
     (case frame_to_evict of
        None \<Rightarrow> Inl KeyError
      | Some v \<Rightarrow>
          (case map_of (entries t) v of
             None \<Rightarrow> Inl KeyError
           | Some (d, n) \<Rightarrow>
               Inr (if d = 1 then vm\<lparr>disk_writes := disk_writes vm + 1\<rparr> else vm,
                    t\<lparr>entries := AList.delete v (entries t)\<rparr>)))"

definition hit :: "page_table \<Rightarrow> int \<Rightarrow> nat \<Rightarrow> nat \<Rightarrow> nat \<Rightarrow> page_table" where
  \<comment> \<open>the branch of a hit: \<open>d\<close> is the dirty bit of the resident entry\<close>
  "hit t frame d dirty_bit i =
     (if d = 1 \<or> dirty_bit = 1
      then t\<lparr>entries := AList.update frame (1, i) (entries t)\<rparr>
      else t\<lparr>entries := AList.update frame (0, i) (entries t)\<rparr>)"

subsection \<open>The LRU simulation\<close>

definition lru_access ::
  "virtual_memory_sim \<Rightarrow> page_table list \<Rightarrow> nat \<Rightarrow> reference
     \<Rightarrow> error + virtual_memory_sim \<times> page_table list" where
  \<comment> \<open>the body of the loop after the line is decoded\<close>
  "lru_access vm tables i r =
     (case r of (dirty_bit, frame, table_idx) \<Rightarrow>
        if length tables \<le> table_idx then Inl IndexError
        else let t = tables ! table_idx in
          (case map_of (entries t) frame of
             None \<Rightarrow>
               let vm1 = vm\<lparr>page_faults := page_faults vm + 1\<rparr> in
               if isFull t then
                 (case evict vm1 t (lru_victim t) of
                    Inl e \<Rightarrow> Inl e
                  | Inr (vm2, t') \<Rightarrow>
                      Inr (vm2, tables[table_idx :=
                        t'\<lparr>entries := AList.update frame (dirty_bit, i) (entries t')\<rparr>]))
               else
                 Inr (vm1, tables[table_idx :=
                   t\<lparr>entries := AList.update frame (dirty_bit, i) (entries t)\<rparr>])
           | Some (d, n) \<Rightarrow>
               Inr (vm, tables[table_idx := hit t frame d dirty_bit i])))"

definition lru_line ::
  "virtual_memory_sim \<Rightarrow> page_table list \<Rightarrow> nat \<Rightarrow> string
     \<Rightarrow> error + virtual_memory_sim \<times> page_table list" where
  "lru_line vm tables i line =
     (let vm1 = vm\<lparr>memory_accesses := memory_accesses vm + 1\<rparr>
      in case parse_line vm1 line of
           Inl e \<Rightarrow> Inl e
         | Inr r \<Rightarrow> lru_access vm1 tables i r)"

fun lru_loop ::
  "virtual_memory_sim \<Rightarrow> page_table list \<Rightarrow> nat \<Rightarrow> string list
     \<Rightarrow> error + virtual_memory_sim \<times> page_table list" where
  "lru_loop vm tables i [] = Inr (vm, tables)"
| "lru_loop vm tables i (line # rest) =
     (case lru_line vm tables i line of
        Inl e \<Rightarrow> Inl e
      | Inr (vm', tables') \<Rightarrow> lru_loop vm' tables' (Suc i) rest)"

text \<open>
  When \<^verbatim>\<open>split_memory\<close> returns \<^verbatim>\<open>-1\<close>, the first \<^verbatim>\<open>tables[table_idx]\<close> raises.
\<close>

definition no_tables ::
  "virtual_memory_sim \<Rightarrow> bool \<Rightarrow> error + virtual_memory_sim \<times> page_table list" where
  "no_tables vm counted =
     (case tracefile vm of
        [] \<Rightarrow> Inr (vm, [])
      | line # rest \<Rightarrow>
          let vm1 = (if counted then vm\<lparr>memory_accesses := memory_accesses vm + 1\<rparr> else vm)
          in case parse_line vm1 line of
               Inl e \<Rightarrow> Inl e
             | Inr r \<Rightarrow> Inl TypeError)"

definition lru_run :: "virtual_memory_sim \<Rightarrow> error + virtual_memory_sim \<times> page_table list" where
  \<comment> \<open>\<^verbatim>\<open>lru_sim\<close>, with the tables it leaves behind\<close>
  "lru_run vm =
     (case split_memory vm of
        Inl e \<Rightarrow> Inl e
      | Inr MinusOne \<Rightarrow> no_tables vm True
      | Inr (Tables tables) \<Rightarrow> lru_loop vm tables 0 (tracefile vm))"

definition lru_sim :: "virtual_memory_sim \<Rightarrow> error + virtual_memory_sim" where
  "lru_sim vm = map_sum id fst (lru_run vm)"

subsection \<open>The OPT simulation\<close>

definition freq_add :: "page_table \<Rightarrow> int \<Rightarrow> nat \<Rightarrow> page_table" where
  "freq_add t frame i =
     (case map_of (freq t) frame of
        None \<Rightarrow> t\<lparr>freq := AList.update frame [i] (freq t)\<rparr>
      | Some uses \<Rightarrow> t\<lparr>freq := AList.update frame (uses @ [i]) (freq t)\<rparr>)"

definition first_access ::
  "page_table list \<Rightarrow> nat \<Rightarrow> reference \<Rightarrow> error + page_table list" where
  "first_access tables i r =
     (case r of (dirty_bit, frame, table_idx) \<Rightarrow>
        if length tables \<le> table_idx then Inl IndexError
        else Inr (tables[table_idx := freq_add (tables ! table_idx) frame i]))"

fun first_pass ::
  "virtual_memory_sim \<Rightarrow> page_table list \<Rightarrow> nat \<Rightarrow> string list \<Rightarrow> error + page_table list"
  where
  "first_pass vm tables i [] = Inr tables"
| "first_pass vm tables i (line # rest) =
     (case parse_line vm line of
        Inl e \<Rightarrow> Inl e
      | Inr r \<Rightarrow>
          (case first_access tables i r of
             Inl e \<Rightarrow> Inl e
           | Inr tables' \<Rightarrow> first_pass vm tables' (Suc i) rest))"

definition reverse_freq :: "page_table \<Rightarrow> page_table" where
  "reverse_freq t = t\<lparr>freq := map (\<lambda>(key, uses). (key, rev uses)) (freq t)\<rparr>"

definition freq_pop :: "page_table \<Rightarrow> int \<Rightarrow> error + page_table" where
  \<comment> \<open>\<^verbatim>\<open>freq[frame].pop()\<close>\<close>
  "freq_pop t frame =
     (case map_of (freq t) frame of
        None \<Rightarrow> Inl KeyError
      | Some uses \<Rightarrow>
          if uses = [] then Inl IndexError
          else Inr (t\<lparr>freq := AList.update frame (butlast uses) (freq t)\<rparr>))"

definition opt_access ::
  "virtual_memory_sim \<Rightarrow> page_table list \<Rightarrow> nat \<Rightarrow> reference
     \<Rightarrow> error + virtual_memory_sim \<times> page_table list" where
  \<comment> \<open>the body of the second loop after the line is decoded\<close>
  "opt_access vm tables i r =
     (case r of (dirty_bit, frame, table_idx) \<Rightarrow>
        if length tables \<le> table_idx then Inl IndexError
        else let t = tables ! table_idx in
          (case map_of (entries t) frame of
             None \<Rightarrow>
               let vm1 = vm\<lparr>page_faults := page_faults vm + 1\<rparr> in
               if isFull t then
                 (case opt_victim t of
                    Inl e \<Rightarrow> Inl e
                  | Inr frame_to_evict \<Rightarrow>
                      (case evict vm1 t frame_to_evict of
                         Inl e \<Rightarrow> Inl e
                       | Inr (vm2, t') \<Rightarrow>
                           (case freq_pop t' frame of
                              Inl e \<Rightarrow> Inl e
                            | Inr t'' \<Rightarrow>
                                Inr (vm2, tables[table_idx := t''\<lparr>entries :=
                                  AList.update frame (dirty_bit, i) (entries t'')\<rparr>]))))
               else
                 (case freq_pop t frame of
                    Inl e \<Rightarrow> Inl e
                  | Inr t'' \<Rightarrow>
                      Inr (vm1, tables[table_idx := t''\<lparr>entries :=
                        AList.update frame (dirty_bit, i) (entries t'')\<rparr>]))
           | Some (d, n) \<Rightarrow>
               (case freq_pop t frame of
                  Inl e \<Rightarrow> Inl e
                | Inr t'' \<Rightarrow> Inr (vm, tables[table_idx := hit t'' frame d dirty_bit i]))))"

definition opt_line ::
  "virtual_memory_sim \<Rightarrow> page_table list \<Rightarrow> nat \<Rightarrow> string
     \<Rightarrow> error + virtual_memory_sim \<times> page_table list" where
  "opt_line vm tables i line =
     (let vm1 = vm\<lparr>memory_accesses := memory_accesses vm + 1\<rparr>
      in case parse_line vm1 line of
           Inl e \<Rightarrow> Inl e
         | Inr r \<Rightarrow> opt_access vm1 tables i r)"

fun opt_loop ::
  "virtual_memory_sim \<Rightarrow> page_table list \<Rightarrow> nat \<Rightarrow> string list
     \<Rightarrow> error + virtual_memory_sim \<times> page_table list" where
  "opt_loop vm tables i [] = Inr (vm, tables)"
| "opt_loop vm tables i (line # rest) =
     (case opt_line vm tables i line of
        Inl e \<Rightarrow> Inl e
      | Inr (vm', tables') \<Rightarrow> opt_loop vm' tables' (Suc i) rest)"

definition opt_run :: "virtual_memory_sim \<Rightarrow> error + virtual_memory_sim \<times> page_table list" where
  \<comment> \<open>\<^verbatim>\<open>opt_sim\<close>, with the tables it leaves behind\<close>
  "opt_run vm =
     (case split_memory vm of
        Inl e \<Rightarrow> Inl e
      | Inr MinusOne \<Rightarrow> no_tables vm False
      | Inr (Tables tables) \<Rightarrow>
          (case first_pass vm tables 0 (tracefile vm) of
             Inl e \<Rightarrow> Inl e
           | Inr tables1 \<Rightarrow> opt_loop vm (map reverse_freq tables1) 0 (tracefile vm)))"

definition opt_sim :: "virtual_memory_sim \<Rightarrow> error + virtual_memory_sim" where
  "opt_sim vm = map_sum id fst (opt_run vm)"

definition run_sim :: "virtual_memory_sim \<Rightarrow> error + virtual_memory_sim" where
  "run_sim vm = (if algorithm vm = Some ''opt'' then opt_sim vm else lru_sim vm)"

section \<open>Notions used in the statements\<close>

text \<open>
  The line number stored in an entry, and the set of resident pages of a table.
\<close>

definition last_access :: "int \<times> entry \<Rightarrow> nat" where
  "last_access x = snd (snd x)"

definition resident :: "page_table \<Rightarrow> int set" where
  "resident t = fst ` set (entries t)"

text \<open>
  What one decoded reference, one line and a run of \<open>n\<close> lines leave unchanged, and
  how they move the three counters.
\<close>

definition step_ok ::
  "virtual_memory_sim \<Rightarrow> page_table list \<Rightarrow> virtual_memory_sim \<Rightarrow> page_table list \<Rightarrow> bool" where
  "step_ok vm tables vm' tables' \<longleftrightarrow>
     length tables' = length tables \<and> map frames tables' = map frames tables \<and>
     offset vm' = offset vm \<and> tracefile vm' = tracefile vm \<and>
     memory_accesses vm' = memory_accesses vm \<and>
     page_faults vm \<le> page_faults vm' \<and> disk_writes vm \<le> disk_writes vm' \<and>
     disk_writes vm' - disk_writes vm \<le> page_faults vm' - page_faults vm \<and>
     page_faults vm' - page_faults vm \<le> 1"

definition counters_ok :: "virtual_memory_sim \<Rightarrow> bool" where
  "counters_ok vm \<longleftrightarrow>
     0 \<le> disk_writes vm \<and> disk_writes vm \<le> page_faults vm \<and>
     page_faults vm \<le> memory_accesses vm"

definition line_ok ::
  "virtual_memory_sim \<Rightarrow> page_table list \<Rightarrow> virtual_memory_sim \<Rightarrow> page_table list \<Rightarrow> bool" where
  "line_ok vm tables vm' tables' \<longleftrightarrow>
     length tables' = length tables \<and> map frames tables' = map frames tables \<and>
     offset vm' = offset vm \<and> tracefile vm' = tracefile vm \<and>
     memory_accesses vm' = memory_accesses vm + 1 \<and>
     page_faults vm \<le> page_faults vm' \<and> disk_writes vm \<le> disk_writes vm' \<and>
     disk_writes vm' - disk_writes vm \<le> page_faults vm' - page_faults vm \<and>
     page_faults vm' - page_faults vm \<le> 1"

definition run_ok ::
  "virtual_memory_sim \<Rightarrow> page_table list \<Rightarrow> nat \<Rightarrow> virtual_memory_sim \<Rightarrow> page_table list \<Rightarrow> bool" where
  "run_ok vm tables n vm' tables' \<longleftrightarrow>
     length tables' = length tables \<and> map frames tables' = map frames tables \<and>
     offset vm' = offset vm \<and> tracefile vm' = tracefile vm \<and>
     memory_accesses vm' = memory_accesses vm + int n \<and>
     page_faults vm \<le> page_faults vm' \<and> disk_writes vm \<le> disk_writes vm' \<and>
     disk_writes vm' - disk_writes vm \<le> page_faults vm' - page_faults vm \<and>
     page_faults vm' - page_faults vm \<le> int n"

text \<open>
  The simulator after \<^verbatim>\<open>parse_args\<close> for the command line
  \<^verbatim>\<open>-a alg -n n -p 4 -s split trace\<close>, where \<open>lines\<close> are the lines of the trace.
\<close>

definition configured :: "string \<Rightarrow> int \<Rightarrow> string \<Rightarrow> string list \<Rightarrow> virtual_memory_sim" where
  "configured alg n split lines =
     init\<lparr>algorithm := Some alg, sim_frames := Some n, page_size := Some 4,
       memory_split := Some split, tracefile := lines, offset := Some 12\<rparr>"

text \<open>
  The first table that \<^verbatim>\<open>split_memory\<close> makes for 10 frames and the split \<^verbatim>\<open>1:2\<close>,
  holding three pages, and the same table after a fourth page came in.
\<close>

definition three_pages :: page_table where
  "three_pages =
     \<lparr>frames = Float 7505999378950826 (- 51),
      entries = [(7, 1, 0), (8, 1, 1), (9, 1, 2)], freq = []\<rparr>"

definition four_pages :: page_table where
  "four_pages =
     \<lparr>frames = Float 7505999378950826 (- 51),
      entries = [(7, 1, 0), (8, 1, 1), (9, 1, 2), (5, 1, 3)], freq = []\<rparr>"

text \<open>
  For the optimal policy: whether a resident page has no access left in \<^verbatim>\<open>freq\<close>, and
  the line of its next access (the last element of its list, which is kept reversed).
\<close>

definition never_again :: "page_table \<Rightarrow> int \<times> entry \<Rightarrow> bool" where
  "never_again t x \<longleftrightarrow> map_of (freq t) (fst x) = Some []"

definition next_access :: "page_table \<Rightarrow> int \<times> entry \<Rightarrow> nat" where
  "next_access t x = last (the (map_of (freq t) (fst x)))"

text \<open>
  Two full tables of capacity 3. In the second, page 7 is used again at lines 7 and 9,
  pages 8 and 9 never.
\<close>

definition lru_example :: page_table where
  "lru_example = \<lparr>frames = Float 3 0, entries = [(7, 0, 5), (8, 1, 2), (9, 0, 4)], freq = []\<rparr>"

definition opt_example :: page_table where
  "opt_example = \<lparr>frames = Float 3 0, entries = [(7, 0, 5), (8, 1, 2), (9, 0, 4)],
     freq = [(7, [9, 7]), (8, []), (9, []), (10, [6])]\<rparr>"

text \<open>
  The options \<^verbatim>\<open>-a lru -n 8 -p 3 -s 1:1\<close> with an empty trace.
\<close>

definition three_kb :: contents where
  "three_kb = \<lparr>arg_algorithm = Some ''lru'', numframes = Some 8, pagesize = Some 3,
     memorysplit = Some ''1:1'', arg_tracefile = []\<rparr>"

text \<open>
  The failure condition of the decoder in the words of the specification: fewer than
  three whitespace-separated fields, or an address that is not a run of hexadecimal
  digits, or a third field that does not start with \<^verbatim>\<open>0\<close> or \<^verbatim>\<open>1\<close>.
\<close>

definition spec_fields :: "string \<Rightarrow> string list" where
  "spec_fields s =
     filter (\<lambda>w. w \<noteq> [])
       (foldr (\<lambda>c fs. if is_space c then [] # fs else (c # hd fs) # tl fs) s [[]])"

definition spec_hex :: "string \<Rightarrow> bool" where
  "spec_hex s \<longleftrightarrow> s \<noteq> [] \<and> list_all (\<lambda>c. digit_value c \<noteq> None) s"

definition spec_parse_error :: "string \<Rightarrow> bool" where
  "spec_parse_error line \<longleftrightarrow>
     length (spec_fields line) < 3 \<or> \<not> spec_hex (spec_fields line ! 1) \<or>
     take 1 (spec_fields line ! 2) \<notin> {''0'', ''1''}"

text \<open>
  Two command lines with a page size of 4 KB: 10 frames split \<^verbatim>\<open>1:2\<close> with a trace of
  four pages of process 0, and 4 frames split \<^verbatim>\<open>0:1\<close> with one reference of process 0.
\<close>

definition third_and_two_thirds :: virtual_memory_sim where
  "third_and_two_thirds =
     configured ''lru'' 10 ''1:2'' [''l 0x1000 0'', ''l 0x2000 0'', ''l 0x3000 0'', ''l 0x4000 0'']"

definition nothing_for_first :: "string \<Rightarrow> virtual_memory_sim" where
  "nothing_for_first alg = configured alg 4 ''0:1'' [''l 0x1000 0'']"



definition seen :: "reference list \<Rightarrow> nat \<Rightarrow> int \<Rightarrow> nat \<Rightarrow> nat list" where
  "seen evs k f i =
     filter (\<lambda>p. fst (snd (evs ! p)) = f \<and> snd (snd (evs ! p)) = k) [0..<i]"





definition counted :: "reference list \<Rightarrow> nat \<Rightarrow> page_table list \<Rightarrow> bool" where
  "counted evs i ts \<longleftrightarrow>
     (\<forall>k<length ts. \<forall>f. map_of (freq (ts ! k)) f =
        (if seen evs k f i = [] then None else Some (seen evs k f i)))"



section \<open>Properties\<close>

subsection \<open>Evaluation\<close>

lemma bit_length_numeral [simp]:
  "bit_length 0 = 0"
  "bit_length (Suc 0) = 1"
  "bit_length 1 = 1"
  "bit_length (numeral (Num.Bit0 k)) = Suc (bit_length (numeral k))"
  "bit_length (numeral (Num.Bit1 k)) = Suc (bit_length (numeral k))"
proof -
  show "bit_length 0 = 0" by (simp add: bit_length.simps)
  show "bit_length (Suc 0) = 1"
    by (simp add: bit_length.simps [of "Suc 0"] bit_length.simps [of 0])
  then show "bit_length 1 = 1" by simp
  show "bit_length (numeral (Num.Bit0 k)) = Suc (bit_length (numeral k))"
    by (subst bit_length.simps) simp
  show "bit_length (numeral (Num.Bit1 k)) = Suc (bit_length (numeral k))"
    by (subst bit_length.simps) simp
qed

lemmas float_eval = float_mul_int_def float_mul_def int_to_float_def true_div_def
  round_mantissa_def round_div_def pow2_def Let_def

lemmas parse_eval = parse_line_def split_space_def int16_def strip_def is_space_def
  unsigned16_def number_def digit_value_def shift_right_def int_of_char_def

lemmas access_eval = lru_access_def opt_access_def isFull_def lru_victim_def opt_victim_def
  maxsize_def evict_def hit_def freq_pop_def new_page_table_def

lemma not_whole: "of_int k < x \<Longrightarrow> x < of_int k + 1 \<Longrightarrow> x \<notin> \<int>"
  for x :: rat
proof
  assume a: "of_int k < x" "x < of_int k + 1" "x \<in> \<int>"
  then obtain z where "x = of_int z" by (auto elim: Ints_cases)
  with a(1,2) have "k < z" "z < k + 1" by (simp_all flip: of_int_less_iff)
  then show False by simp
qed

subsection \<open>The branches of one reference\<close>

lemma lru_access_cases:
  assumes "lru_access vm tables i (dirty_bit, frame, k) = Inr (vm', tables')"
  obtains (hit) d n where "k < length tables"
      "map_of (entries (tables ! k)) frame = Some (d, n)" "vm' = vm"
      "tables' = tables[k := hit (tables ! k) frame d dirty_bit i]"
  | (fill) "k < length tables" "map_of (entries (tables ! k)) frame = None"
      "\<not> isFull (tables ! k)" "vm' = vm\<lparr>page_faults := page_faults vm + 1\<rparr>"
      "tables' = tables[k := (tables ! k)\<lparr>entries :=
         AList.update frame (dirty_bit, i) (entries (tables ! k))\<rparr>]"
  | (evict) v d n where "k < length tables" "map_of (entries (tables ! k)) frame = None"
      "isFull (tables ! k)" "lru_victim (tables ! k) = Some v"
      "map_of (entries (tables ! k)) v = Some (d, n)"
      "vm' = vm\<lparr>page_faults := page_faults vm + 1,
         disk_writes := disk_writes vm + (if d = 1 then 1 else 0)\<rparr>"
      "tables' = tables[k := (tables ! k)\<lparr>entries :=
         AList.update frame (dirty_bit, i) (AList.delete v (entries (tables ! k)))\<rparr>]"
  using assms
  by (auto simp: lru_access_def evict_def Let_def
      split: if_splits option.splits sum.splits prod.splits)

lemma opt_access_cases:
  assumes "opt_access vm tables i (dirty_bit, frame, k) = Inr (vm', tables')"
  obtains (hit) d n uses where "k < length tables"
      "map_of (entries (tables ! k)) frame = Some (d, n)" "vm' = vm"
      "map_of (freq (tables ! k)) frame = Some uses" "uses \<noteq> []"
      "tables' = tables[k := hit ((tables ! k)\<lparr>freq :=
         AList.update frame (butlast uses) (freq (tables ! k))\<rparr>) frame d dirty_bit i]"
  | (fill) uses where "k < length tables" "map_of (entries (tables ! k)) frame = None"
      "\<not> isFull (tables ! k)" "vm' = vm\<lparr>page_faults := page_faults vm + 1\<rparr>"
      "map_of (freq (tables ! k)) frame = Some uses" "uses \<noteq> []"
      "tables' = tables[k := (tables ! k)\<lparr>
         freq := AList.update frame (butlast uses) (freq (tables ! k)),
         entries := AList.update frame (dirty_bit, i) (entries (tables ! k))\<rparr>]"
  | (evict) v d n uses where "k < length tables"
      "map_of (entries (tables ! k)) frame = None"
      "isFull (tables ! k)" "opt_victim (tables ! k) = Inr (Some v)"
      "map_of (entries (tables ! k)) v = Some (d, n)"
      "vm' = vm\<lparr>page_faults := page_faults vm + 1,
         disk_writes := disk_writes vm + (if d = 1 then 1 else 0)\<rparr>"
      "map_of (freq (tables ! k)) frame = Some uses" "uses \<noteq> []"
      "tables' = tables[k := (tables ! k)\<lparr>
         freq := AList.update frame (butlast uses) (freq (tables ! k)),
         entries := AList.update frame (dirty_bit, i)
           (AList.delete v (entries (tables ! k)))\<rparr>]"
  using assms
  by (auto simp: opt_access_def evict_def freq_pop_def Let_def
      split: if_splits option.splits sum.splits prod.splits)

lemma isFull_non_integer: "float_val (frames t) \<notin> \<int> \<Longrightarrow> \<not> isFull t"
  by (metis isFull_def Ints_of_nat)


lemma length_update:
  "length (AList.update k v al) = (if k \<in> fst ` set al then length al else Suc (length al))"
  by (induction al) auto

lemma resident_None: "map_of (entries t) f = None \<longleftrightarrow> f \<notin> resident t"
  by (simp add: resident_def map_of_eq_None_iff)

lemma resident_Some: "map_of (entries t) f = Some x \<Longrightarrow> f \<in> resident t"
  by (metis resident_None option.distinct(1))

lemma hit_simps [simp]:
  "frames (hit t f d b i) = frames t"
  "freq (hit t f d b i) = freq t"
  "resident (hit t f d b i) = insert f (resident t)"
  "length (entries (hit t f d b i)) = (if f \<in> resident t then length (entries t) else Suc (length (entries t)))"
  by (auto simp: hit_def resident_def dom_update length_update)

lemma resident_update [simp]:
  "resident (t\<lparr>entries := AList.update f x es\<rparr>) = insert f (fst ` set es)"
  by (simp add: resident_def dom_update)

lemma resident_freq_update [simp]: "resident (t\<lparr>freq := fq\<rparr>) = resident t"
  by (simp add: resident_def)

lemma map_frames_update:
  "k < length tables \<Longrightarrow> frames t = frames (tables ! k) \<Longrightarrow>
   map frames (tables[k := t]) = map frames tables"
  by (simp add: map_update list_update_same_conv)

lemma lru_access_step_ok:
  assumes "lru_access vm tables i r = Inr (vm', tables')"
  shows "step_ok vm tables vm' tables'"
proof -
  obtain b f k where r: "r = (b, f, k)" by (cases r) auto
  from assms [unfolded r] show ?thesis
    by (cases rule: lru_access_cases) (simp_all add: step_ok_def map_frames_update)
qed

lemma opt_access_step_ok:
  assumes "opt_access vm tables i r = Inr (vm', tables')"
  shows "step_ok vm tables vm' tables'"
proof -
  obtain b f k where r: "r = (b, f, k)" by (cases r) auto
  from assms [unfolded r] show ?thesis
    by (cases rule: opt_access_cases) (simp_all add: step_ok_def map_frames_update)
qed

lemma lru_line_ok:
  assumes "lru_line vm tables i line = Inr (vm', tables')"
  shows "line_ok vm tables vm' tables'"
  using assms lru_access_step_ok [of "vm\<lparr>memory_accesses := memory_accesses vm + 1\<rparr>" tables i _ vm' tables']
  by (auto simp: lru_line_def Let_def step_ok_def line_ok_def split: sum.splits)

lemma opt_line_ok:
  assumes "opt_line vm tables i line = Inr (vm', tables')"
  shows "line_ok vm tables vm' tables'"
  using assms opt_access_step_ok [of "vm\<lparr>memory_accesses := memory_accesses vm + 1\<rparr>" tables i _ vm' tables']
  by (auto simp: opt_line_def Let_def step_ok_def line_ok_def split: sum.splits)

lemma lru_loop_append:
  "lru_loop vm tables i (xs @ ys) =
     (case lru_loop vm tables i xs of
        Inl e \<Rightarrow> Inl e
      | Inr (vm', tables') \<Rightarrow> lru_loop vm' tables' (i + length xs) ys)"
  by (induction xs arbitrary: vm tables i) (auto split: sum.splits)

lemma opt_loop_append:
  "opt_loop vm tables i (xs @ ys) =
     (case opt_loop vm tables i xs of
        Inl e \<Rightarrow> Inl e
      | Inr (vm', tables') \<Rightarrow> opt_loop vm' tables' (i + length xs) ys)"
  by (induction xs arbitrary: vm tables i) (auto split: sum.splits)

lemma run_ok_refl: "run_ok vm tables 0 vm tables"
  by (simp add: run_ok_def)

lemma run_ok_step:
  "line_ok vm tables vm1 tables1 \<Longrightarrow> run_ok vm1 tables1 n vm' tables' \<Longrightarrow>
   run_ok vm tables (Suc n) vm' tables'"
  by (auto simp: run_ok_def line_ok_def)

lemma lru_loop_ok:
  "lru_loop vm tables i lines = Inr (vm', tables') \<Longrightarrow> run_ok vm tables (length lines) vm' tables'"
proof (induction lines arbitrary: vm tables i)
  case Nil
  then show ?case by (simp add: run_ok_refl)
next
  case (Cons line lines)
  then obtain vm1 tables1 where 1: "lru_line vm tables i line = Inr (vm1, tables1)"
    and 2: "lru_loop vm1 tables1 (Suc i) lines = Inr (vm', tables')"
    by (auto split: sum.splits)
  from lru_line_ok [OF 1] Cons.IH [OF 2] show ?case
    by (simp add: run_ok_step)
qed

lemma opt_loop_ok:
  "opt_loop vm tables i lines = Inr (vm', tables') \<Longrightarrow> run_ok vm tables (length lines) vm' tables'"
proof (induction lines arbitrary: vm tables i)
  case Nil
  then show ?case by (simp add: run_ok_refl)
next
  case (Cons line lines)
  then obtain vm1 tables1 where 1: "opt_line vm tables i line = Inr (vm1, tables1)"
    and 2: "opt_loop vm1 tables1 (Suc i) lines = Inr (vm', tables')"
    by (auto split: sum.splits)
  from opt_line_ok [OF 1] Cons.IH [OF 2] show ?case
    by (simp add: run_ok_step)
qed

lemma run_ok_counters:
  "run_ok vm tables n vm' tables' \<Longrightarrow> counters_ok vm \<Longrightarrow> counters_ok vm'"
  by (auto simp: run_ok_def counters_ok_def)

lemma split_memory_not_MinusOne: "split_memory vm \<noteq> Inr MinusOne"
  by (auto simp: split_memory_def split: option.splits sum.splits)

lemma lru_run_ok:
  assumes "lru_run vm = Inr (vm', tables')"
  shows "\<exists>tables. run_ok vm tables (length (tracefile vm)) vm' tables'"
  using assms split_memory_not_MinusOne [of vm]
  by (auto simp: lru_run_def split: sum.splits split_result.splits dest: lru_loop_ok)

lemma opt_run_ok:
  assumes "opt_run vm = Inr (vm', tables')"
  shows "\<exists>tables. run_ok vm tables (length (tracefile vm)) vm' tables'"
  using assms split_memory_not_MinusOne [of vm]
  by (auto simp: opt_run_def split: sum.splits split_result.splits dest: opt_loop_ok)

lemma run_sim_ok:
  assumes "run_sim vm = Inr vm'"
  shows "\<exists>tables tables'. run_ok vm tables (length (tracefile vm)) vm' tables'"
proof (cases "algorithm vm = Some ''opt''")
  case True
  with assms obtain tables' where "opt_run vm = Inr (vm', tables')"
    by (cases "opt_run vm") (auto simp: run_sim_def opt_sim_def)
  then show ?thesis using opt_run_ok by blast
next
  case False
  with assms obtain tables' where "lru_run vm = Inr (vm', tables')"
    by (cases "lru_run vm") (auto simp: run_sim_def lru_sim_def)
  then show ?thesis using lru_run_ok by blast
qed

lemma parse_args_configured:
  "parse_args init \<lparr>arg_algorithm = Some alg, numframes = Some n, pagesize = Some 4,
     memorysplit = Some split, arg_tracefile = lines\<rparr> =
   Inr (if n = 0 then (configured alg n split lines)\<lparr>sim_frames := Some 0\<rparr>
        else configured alg n split lines)"
  by (simp add: parse_args_def configured_def init_def int_log2_def Let_def)

lemma split_memory_halves:
  "split_memory (configured alg 2 ''1:1'' lines) =
   Inr (Tables [new_page_table (Float 4503599627370496 (- 52)),
                new_page_table (Float 4503599627370496 (- 52))])"
  by (simp add: split_memory_def configured_def init_def int_of_char_def float_eval)

subsection \<open>Tables whose capacity is not a whole number\<close>

lemma lru_access_fractional:
  assumes "lru_access vm tables i (b, f, k) = Inr (vm', tables')"
    and "float_val (frames (tables ! k)) \<notin> \<int>"
  shows "disk_writes vm' = disk_writes vm \<and> frames (tables' ! k) = frames (tables ! k) \<and>
    resident (tables' ! k) = insert f (resident (tables ! k)) \<and>
    length (entries (tables' ! k)) =
      (if f \<in> resident (tables ! k) then length (entries (tables ! k))
       else Suc (length (entries (tables ! k))))"
  using assms(1)
proof (cases rule: lru_access_cases)
  case (hit d n)
  then show ?thesis by (simp add: resident_Some)
next
  case fill
  then show ?thesis by (simp add: resident_None length_update) (simp add: resident_def)
next
  case (evict v d n)
  with assms(2) show ?thesis by (simp add: isFull_non_integer)
qed

lemma opt_access_fractional:
  assumes "opt_access vm tables i (b, f, k) = Inr (vm', tables')"
    and "float_val (frames (tables ! k)) \<notin> \<int>"
  shows "disk_writes vm' = disk_writes vm \<and> frames (tables' ! k) = frames (tables ! k) \<and>
    resident (tables' ! k) = insert f (resident (tables ! k)) \<and>
    length (entries (tables' ! k)) =
      (if f \<in> resident (tables ! k) then length (entries (tables ! k))
       else Suc (length (entries (tables ! k))))"
  using assms(1)
proof (cases rule: opt_access_cases)
  case (hit d n uses)
  then show ?thesis by (simp add: resident_Some)
next
  case (fill uses)
  then show ?thesis by (simp add: resident_None length_update) (simp add: resident_def)
next
  case (evict v d n uses)
  with assms(2) show ?thesis by (simp add: isFull_non_integer)
qed

text \<open>
  Claim C3. \<^verbatim>\<open>isFull\<close> is true exactly when the number of entries equals the
  \<^verbatim>\<open>frames\<close> value of the table. So a table whose \<^verbatim>\<open>frames\<close> value is not a whole
  number is never full: a reference to it, in either simulation, evicts nothing (the
  resident set only gains the referenced page, and grows by one entry on every miss,
  whatever the capacity), counts no disk write, and leaves the table not full again.
\<close>

theorem fractional_table_never_evicts:
  "(isFull t \<longleftrightarrow> rat_of_nat (length (entries t)) = float_val (frames t)) \<and>
   (float_val (frames t) \<notin> \<int> \<longrightarrow> \<not> isFull t) \<and>
   (float_val (frames (tables ! k)) \<notin> \<int> \<and>
    (lru_access vm tables i (b, f, k) = Inr (vm', tables') \<or>
     opt_access vm tables i (b, f, k) = Inr (vm', tables')) \<longrightarrow>
      disk_writes vm' = disk_writes vm \<and>
      frames (tables' ! k) = frames (tables ! k) \<and> \<not> isFull (tables' ! k) \<and>
      resident (tables' ! k) = insert f (resident (tables ! k)) \<and>
      length (entries (tables' ! k)) =
        (if f \<in> resident (tables ! k) then length (entries (tables ! k))
         else Suc (length (entries (tables ! k)))))"
proof (intro conjI impI)
  show "isFull t \<longleftrightarrow> rat_of_nat (length (entries t)) = float_val (frames t)"
    by (simp add: isFull_def)
next
  assume "float_val (frames t) \<notin> \<int>"
  then show "\<not> isFull t" by (rule isFull_non_integer)
next
  assume a: "float_val (frames (tables ! k)) \<notin> \<int> \<and>
    (lru_access vm tables i (b, f, k) = Inr (vm', tables') \<or>
     opt_access vm tables i (b, f, k) = Inr (vm', tables'))"
  then have *: "disk_writes vm' = disk_writes vm \<and> frames (tables' ! k) = frames (tables ! k) \<and>
    resident (tables' ! k) = insert f (resident (tables ! k)) \<and>
    length (entries (tables' ! k)) =
      (if f \<in> resident (tables ! k) then length (entries (tables ! k))
       else Suc (length (entries (tables ! k))))"
    using lru_access_fractional opt_access_fractional by blast
  from * show "disk_writes vm' = disk_writes vm" by simp
  from * show "frames (tables' ! k) = frames (tables ! k)" by simp
  from * a show "\<not> isFull (tables' ! k)" by (simp add: isFull_non_integer)
  from * show "resident (tables' ! k) = insert f (resident (tables ! k))" by simp
  from * show "length (entries (tables' ! k)) =
      (if f \<in> resident (tables ! k) then length (entries (tables ! k))
       else Suc (length (entries (tables ! k))))" by simp
qed

theorem fractional_table_never_evicts_witness:
  "float_val (frames three_pages) \<notin> \<int> \<and>
   lru_access init [three_pages] 3 (1, 5, 0) = Inr (init\<lparr>page_faults := 1\<rparr>, [four_pages]) \<and>
   \<not> isFull four_pages \<and> length (entries four_pages) = Suc (length (entries three_pages))"
proof -
  have 1: "float_val (frames three_pages) \<notin> \<int>"
    by (rule not_whole [of 3]) (simp_all add: three_pages_def pow2_def)
  have 2: "lru_access init [three_pages] 3 (1, 5, 0) = Inr (init\<lparr>page_faults := 1\<rparr>, [four_pages])"
    by (simp add: lru_access_def isFull_def init_def three_pages_def four_pages_def pow2_def)
  have 3: "5 \<notin> resident three_pages"
    by (simp add: resident_def three_pages_def)
  have prem: "float_val (frames ([three_pages] ! 0)) \<notin> \<int> \<and>
    (lru_access init [three_pages] 3 (1, 5, 0) = Inr (init\<lparr>page_faults := 1\<rparr>, [four_pages]) \<or>
     opt_access init [three_pages] 3 (1, 5, 0) = Inr (init\<lparr>page_faults := 1\<rparr>, [four_pages]))"
    using 1 2 by simp
  note T = fractional_table_never_evicts [where tables = "[three_pages]" and k = 0
      and vm = init and i = 3 and b = 1 and f = 5 and vm' = "init\<lparr>page_faults := 1\<rparr>"
      and tables' = "[four_pages]", THEN conjunct2, THEN conjunct2, THEN mp, OF prem]
  from T [THEN conjunct2, THEN conjunct2, THEN conjunct1]
  have 4: "\<not> isFull four_pages" by simp
  from T [THEN conjunct2, THEN conjunct2, THEN conjunct2, THEN conjunct2] 3
  have 5: "length (entries four_pages) = Suc (length (entries three_pages))" by simp
  from 1 2 4 5 show ?thesis by (intro conjI)
qed

subsection \<open>The counters\<close>

text \<open>
  Claim C10. Take either loop from any state whose counters satisfy
  \<open>0 \<le> disk_writes \<le> page_faults \<le> memory_accesses\<close>, and any point of a run that
  completes (the lines split into those read so far and the rest). The state at that
  point exists, its counters satisfy the same inequalities, they are not below the
  starting ones nor above the final ones, and \<^verbatim>\<open>memory_accesses\<close> has grown by the number
  of lines read. A whole simulation that starts from counters 0 and completes ends with
  \<^verbatim>\<open>memory_accesses\<close> equal to the number of lines of the trace.
\<close>

theorem counters_invariant:
  "((loop = lru_loop \<or> loop = opt_loop) \<and> counters_ok vm \<and>
    loop vm tables i (lines @ rest) = Inr (vm'', tables'') \<longrightarrow>
      (\<exists>vm' tables'. loop vm tables i lines = Inr (vm', tables') \<and>
         loop vm' tables' (i + length lines) rest = Inr (vm'', tables'') \<and>
         memory_accesses vm' = memory_accesses vm + int (length lines) \<and>
         0 \<le> disk_writes vm' \<and> disk_writes vm' \<le> page_faults vm' \<and>
         page_faults vm' \<le> memory_accesses vm' \<and>
         disk_writes vm \<le> disk_writes vm' \<and> disk_writes vm' \<le> disk_writes vm'' \<and>
         page_faults vm \<le> page_faults vm' \<and> page_faults vm' \<le> page_faults vm'' \<and>
         memory_accesses vm \<le> memory_accesses vm' \<and>
         memory_accesses vm' \<le> memory_accesses vm'')) \<and>
   (memory_accesses vm = 0 \<and> page_faults vm = 0 \<and> disk_writes vm = 0 \<and>
    run_sim vm = Inr vmf \<longrightarrow>
      memory_accesses vmf = int (length (tracefile vm)) \<and>
      0 \<le> disk_writes vmf \<and> disk_writes vmf \<le> page_faults vmf \<and>
      page_faults vmf \<le> memory_accesses vmf)"
proof (intro conjI impI)
  assume a: "(loop = lru_loop \<or> loop = opt_loop) \<and> counters_ok vm \<and>
    loop vm tables i (lines @ rest) = Inr (vm'', tables'')"
  then obtain vm' tables' where 1: "loop vm tables i lines = Inr (vm', tables')"
    and 2: "loop vm' tables' (i + length lines) rest = Inr (vm'', tables'')"
    by (auto simp: lru_loop_append opt_loop_append split: sum.splits)
  from a 1 have r1: "run_ok vm tables (length lines) vm' tables'"
    using lru_loop_ok opt_loop_ok by blast
  from a 2 have r2: "run_ok vm' tables' (length rest) vm'' tables''"
    using lru_loop_ok opt_loop_ok by blast
  from a r1 have "counters_ok vm'" by (blast intro: run_ok_counters)
  with r1 r2 1 2 show "\<exists>vm' tables'. loop vm tables i lines = Inr (vm', tables') \<and>
         loop vm' tables' (i + length lines) rest = Inr (vm'', tables'') \<and>
         memory_accesses vm' = memory_accesses vm + int (length lines) \<and>
         0 \<le> disk_writes vm' \<and> disk_writes vm' \<le> page_faults vm' \<and>
         page_faults vm' \<le> memory_accesses vm' \<and>
         disk_writes vm \<le> disk_writes vm' \<and> disk_writes vm' \<le> disk_writes vm'' \<and>
         page_faults vm \<le> page_faults vm' \<and> page_faults vm' \<le> page_faults vm'' \<and>
         memory_accesses vm \<le> memory_accesses vm' \<and>
         memory_accesses vm' \<le> memory_accesses vm''"
    by (intro exI [of _ vm'] exI [of _ tables']) (simp add: run_ok_def counters_ok_def)
next
  assume a: "memory_accesses vm = 0 \<and> page_faults vm = 0 \<and> disk_writes vm = 0 \<and>
    run_sim vm = Inr vmf"
  then obtain tables tables' where r: "run_ok vm tables (length (tracefile vm)) vmf tables'"
    using run_sim_ok by blast
  from a have "counters_ok vm" by (simp add: counters_ok_def)
  with r have c: "counters_ok vmf" by (rule run_ok_counters)
  from r a show "memory_accesses vmf = int (length (tracefile vm))" by (simp add: run_ok_def)
  from c show "0 \<le> disk_writes vmf" by (simp add: counters_ok_def)
  from c show "disk_writes vmf \<le> page_faults vmf" by (simp add: counters_ok_def)
  from c show "page_faults vmf \<le> memory_accesses vmf" by (simp add: counters_ok_def)
qed

theorem counters_invariant_witness:
  "counters_ok (configured ''lru'' 2 ''1:1'' []) \<and>
   \<not> isl (lru_loop (configured ''lru'' 2 ''1:1'' [])
     [new_page_table (Float 1 0), new_page_table (Float 1 0)] 0
     ([''s 0x1000 0'', ''l 0x2000 0''] @ [''l 0x1000 0''])) \<and>
   (\<exists>vm' tables'.
      lru_loop (configured ''lru'' 2 ''1:1'' [])
        [new_page_table (Float 1 0), new_page_table (Float 1 0)] 0
        [''s 0x1000 0'', ''l 0x2000 0''] = Inr (vm', tables') \<and>
      memory_accesses vm' = 2 \<and> disk_writes vm' \<le> page_faults vm' \<and>
      page_faults vm' \<le> memory_accesses vm') \<and>
   \<not> isl (run_sim (configured ''opt'' 2 ''1:1'' [''s 0x1000 0'', ''l 0x2000 0''])) \<and>
   (\<exists>vmf. run_sim (configured ''opt'' 2 ''1:1'' [''s 0x1000 0'', ''l 0x2000 0'']) = Inr vmf \<and>
      memory_accesses vmf = 2)"
proof -
  let ?vm = "configured ''lru'' 2 ''1:1'' []"
  let ?ts = "[new_page_table (Float 1 0), new_page_table (Float 1 0)]"
  let ?vo = "configured ''opt'' 2 ''1:1'' [''s 0x1000 0'', ''l 0x2000 0'']"
  have c: "counters_ok ?vm"
    by (simp add: counters_ok_def configured_def init_def)
  have z: "memory_accesses ?vm = 0" "memory_accesses ?vo = 0" "page_faults ?vo = 0"
    "disk_writes ?vo = 0" "tracefile ?vo = [''s 0x1000 0'', ''l 0x2000 0'']"
    "algorithm ?vo = Some ''opt''"
    by (simp_all add: configured_def init_def)
  have l: "\<not> isl (lru_loop ?vm ?ts 0 ([''s 0x1000 0'', ''l 0x2000 0''] @ [''l 0x1000 0'']))"
    by (simp add: lru_line_def parse_eval access_eval configured_def init_def float_eval)
  then obtain vm'' tables'' where
    l': "lru_loop ?vm ?ts 0 ([''s 0x1000 0'', ''l 0x2000 0''] @ [''l 0x1000 0'']) = Inr (vm'', tables'')"
    by (cases "lru_loop ?vm ?ts 0 ([''s 0x1000 0'', ''l 0x2000 0''] @ [''l 0x1000 0''])") auto
  have "\<not> isl (opt_run ?vo)"
    by (simp add: opt_run_def split_memory_halves)
      (simp add: opt_line_def first_access_def freq_add_def reverse_freq_def parse_eval
        access_eval configured_def init_def float_eval)
  with z(6) have r: "\<not> isl (run_sim ?vo)"
    by (simp add: run_sim_def opt_sim_def isl_map_sum)
  then obtain vmf where r': "run_sim ?vo = Inr vmf"
    by (cases "run_sim ?vo") auto
  have premA: "(lru_loop = lru_loop \<or> lru_loop = opt_loop) \<and> counters_ok ?vm \<and>
    lru_loop ?vm ?ts 0 ([''s 0x1000 0'', ''l 0x2000 0''] @ [''l 0x1000 0'']) = Inr (vm'', tables'')"
    using c l' by (intro conjI disjI1) simp_all
  note A = counters_invariant [where loop = lru_loop and vm = ?vm and tables = ?ts and i = 0
      and lines = "[''s 0x1000 0'', ''l 0x2000 0'']" and rest = "[''l 0x1000 0'']"
      and vm'' = vm'' and tables'' = tables'', THEN conjunct1, THEN mp, OF premA]
  then obtain vm' tables' where
    a: "lru_loop ?vm ?ts 0 [''s 0x1000 0'', ''l 0x2000 0''] = Inr (vm', tables')"
      "memory_accesses vm' = memory_accesses ?vm + int (length [''s 0x1000 0'', ''l 0x2000 0''])"
      "disk_writes vm' \<le> page_faults vm'" "page_faults vm' \<le> memory_accesses vm'"
    by (elim exE conjE)
  from a(2) z(1) have a2: "memory_accesses vm' = 2" by simp
  have 1: "\<exists>vm' tables'.
      lru_loop ?vm ?ts 0 [''s 0x1000 0'', ''l 0x2000 0''] = Inr (vm', tables') \<and>
      memory_accesses vm' = 2 \<and> disk_writes vm' \<le> page_faults vm' \<and>
      page_faults vm' \<le> memory_accesses vm'"
    using a(1) a2 a(3) a(4) by (intro exI conjI)
  have premB: "memory_accesses ?vo = 0 \<and> page_faults ?vo = 0 \<and> disk_writes ?vo = 0 \<and>
    run_sim ?vo = Inr vmf"
    using z(2-4) r' by (intro conjI)
  note B = counters_invariant [where vm = ?vo and vmf = vmf, THEN conjunct2, THEN mp,
      OF premB, THEN conjunct1]
  with z(5) have "memory_accesses vmf = 2" by simp
  with r' have 2: "\<exists>vmf. run_sim ?vo = Inr vmf \<and> memory_accesses vmf = 2"
    by (intro exI conjI)
  from c l 1 r 2 show ?thesis by (intro conjI)
qed

subsection \<open>The victim of the LRU simulation\<close>

text \<open>
  The order of an association list is the order of insertion: a new key goes to the end,
  an assignment to a present key keeps every place.
\<close>

lemma update_new_key: "k \<notin> fst ` set al \<Longrightarrow> AList.update k v al = al @ [(k, v)]"
  by (induction al) auto

lemma update_old_key: "k \<in> fst ` set al \<Longrightarrow> map fst (AList.update k v al) = map fst al"
  by (induction al) auto

lemma map_of_nth:
  "distinct (map fst es) \<Longrightarrow> j < length es \<Longrightarrow> map_of es (fst (es ! j)) = Some (snd (es ! j))"
  by (metis map_of_is_SomeI nth_mem prod.collapse)

lemma lru_scan_result:
  "(lru_scan es v lru = v \<and> (\<forall>x\<in>set es. lru \<le> last_access x)) \<or>
   (\<exists>j<length es. lru_scan es v lru = Some (fst (es ! j)) \<and> last_access (es ! j) < lru \<and>
      (\<forall>j'<length es. last_access (es ! j) \<le> last_access (es ! j')) \<and>
      (\<forall>j'<j. last_access (es ! j) < last_access (es ! j')))"
proof (induction es arbitrary: v lru)
  case Nil
  then show ?case by simp
next
  case (Cons x es)
  obtain key d n where x: "x = (key, d, n)" by (cases x) auto
  show ?case
  proof (cases "n < lru")
    case True
    from Cons.IH [of "Some key" n] show ?thesis
    proof
      assume a: "lru_scan es (Some key) n = Some key \<and> (\<forall>x\<in>set es. n \<le> last_access x)"
      have "lru_scan (x # es) v lru = Some (fst ((x # es) ! 0))"
        using a True x by simp
      moreover have "last_access ((x # es) ! 0) < lru" using True x by (simp add: last_access_def)
      moreover have "\<forall>j'<length (x # es). last_access ((x # es) ! 0) \<le> last_access ((x # es) ! j')"
        using a x by (auto simp: last_access_def nth_Cons' dest: nth_mem)
      ultimately show ?thesis by (intro disjI2 exI [of _ 0]) simp
    next
      assume "\<exists>j<length es. lru_scan es (Some key) n = Some (fst (es ! j)) \<and>
        last_access (es ! j) < n \<and> (\<forall>j'<length es. last_access (es ! j) \<le> last_access (es ! j')) \<and>
        (\<forall>j'<j. last_access (es ! j) < last_access (es ! j'))"
      then obtain j where j: "j < length es"
        "lru_scan es (Some key) n = Some (fst (es ! j))" "last_access (es ! j) < n"
        "\<forall>j'<length es. last_access (es ! j) \<le> last_access (es ! j')"
        "\<forall>j'<j. last_access (es ! j) < last_access (es ! j')" by blast
      have "lru_scan (x # es) v lru = Some (fst ((x # es) ! Suc j))"
        using j True x by simp
      moreover have "last_access ((x # es) ! Suc j) < lru" using j True by simp
      moreover have "\<forall>j'<length (x # es). last_access ((x # es) ! Suc j) \<le> last_access ((x # es) ! j')"
        using j x by (auto simp: last_access_def nth_Cons' less_Suc_eq_0_disj)
      moreover have "\<forall>j'<Suc j. last_access ((x # es) ! Suc j) < last_access ((x # es) ! j')"
        using j x by (auto simp: last_access_def nth_Cons' less_Suc_eq_0_disj)
      ultimately show ?thesis using j(1) by (intro disjI2 exI [of _ "Suc j"]) simp
    qed
  next
    case False
    from Cons.IH [of v lru] show ?thesis
    proof
      assume "lru_scan es v lru = v \<and> (\<forall>x\<in>set es. lru \<le> last_access x)"
      then show ?thesis using False x by (auto simp: last_access_def)
    next
      assume "\<exists>j<length es. lru_scan es v lru = Some (fst (es ! j)) \<and>
        last_access (es ! j) < lru \<and> (\<forall>j'<length es. last_access (es ! j) \<le> last_access (es ! j')) \<and>
        (\<forall>j'<j. last_access (es ! j) < last_access (es ! j'))"
      then obtain j where j: "j < length es"
        "lru_scan es v lru = Some (fst (es ! j))" "last_access (es ! j) < lru"
        "\<forall>j'<length es. last_access (es ! j) \<le> last_access (es ! j')"
        "\<forall>j'<j. last_access (es ! j) < last_access (es ! j')" by blast
      have "lru_scan (x # es) v lru = Some (fst ((x # es) ! Suc j))"
        using j False x by simp
      moreover have "last_access ((x # es) ! Suc j) < lru" using j by simp
      moreover have "\<forall>j'<length (x # es). last_access ((x # es) ! Suc j) \<le> last_access ((x # es) ! j')"
        using j x False by (auto simp: last_access_def nth_Cons' less_Suc_eq_0_disj)
      moreover have "\<forall>j'<Suc j. last_access ((x # es) ! Suc j) < last_access ((x # es) ! j')"
        using j x False by (auto simp: last_access_def nth_Cons' less_Suc_eq_0_disj)
      ultimately show ?thesis using j(1) by (intro disjI2 exI [of _ "Suc j"]) simp
    qed
  qed
qed

lemma lru_victim_result:
  assumes "entries t \<noteq> []" and "\<forall>x\<in>set (entries t). last_access x < maxsize"
  shows "\<exists>j<length (entries t). lru_victim t = Some (fst (entries t ! j)) \<and>
    (\<forall>j'<length (entries t). last_access (entries t ! j) \<le> last_access (entries t ! j')) \<and>
    (\<forall>j'<j. last_access (entries t ! j) < last_access (entries t ! j'))"
proof -
  from assms obtain x where "x \<in> set (entries t)" "last_access x < maxsize"
    by (cases "entries t") auto
  then have "\<not> (\<forall>x\<in>set (entries t). maxsize \<le> last_access x)" by (metis leD)
  with lru_scan_result [of "entries t" None maxsize] show ?thesis
    unfolding lru_victim_def by blast
qed

text \<open>
  Claim C7. When a reference misses in a full table (with at least one entry, all line
  numbers below \<^verbatim>\<open>sys.maxsize\<close>), \<^verbatim>\<open>lru_sim\<close> evicts the entry at the position \<open>j\<close>
  whose line number is the smallest of the table, and smaller than that of every entry
  before it in iteration order, which is the order of insertion: among equal line
  numbers the earliest inserted page goes.
\<close>

theorem lru_evicts_least_recent:
  assumes "k < length tables" and "map_of (entries (tables ! k)) frame = None"
    and "isFull (tables ! k)" and "entries (tables ! k) \<noteq> []"
    and "\<forall>x\<in>set (entries (tables ! k)). last_access x < maxsize"
    and "distinct (map fst (entries (tables ! k)))"
  shows "\<exists>j<length (entries (tables ! k)).
    (\<forall>j'<length (entries (tables ! k)).
       last_access (entries (tables ! k) ! j) \<le> last_access (entries (tables ! k) ! j')) \<and>
    (\<forall>j'<j. last_access (entries (tables ! k) ! j) < last_access (entries (tables ! k) ! j')) \<and>
    lru_victim (tables ! k) = Some (fst (entries (tables ! k) ! j)) \<and>
    (\<exists>vm'. lru_access vm tables i (dirty_bit, frame, k) =
       Inr (vm', tables[k := (tables ! k)\<lparr>entries := AList.update frame (dirty_bit, i)
         (AList.delete (fst (entries (tables ! k) ! j)) (entries (tables ! k)))\<rparr>]))"
proof -
  let ?es = "entries (tables ! k)"
  from lru_victim_result [OF assms(4,5)] obtain j where j: "j < length ?es"
    "lru_victim (tables ! k) = Some (fst (?es ! j))"
    "\<forall>j'<length ?es. last_access (?es ! j) \<le> last_access (?es ! j')"
    "\<forall>j'<j. last_access (?es ! j) < last_access (?es ! j')" by blast
  from map_of_nth [OF assms(6) j(1)] obtain d n where
    m: "map_of ?es (fst (?es ! j)) = Some (d, n)" by (cases "snd (?es ! j)") auto
  have "\<exists>vm'. lru_access vm tables i (dirty_bit, frame, k) =
       Inr (vm', tables[k := (tables ! k)\<lparr>entries := AList.update frame (dirty_bit, i)
         (AList.delete (fst (?es ! j)) ?es)\<rparr>])"
    using assms(1-3) j(2) m by (simp add: lru_access_def evict_def Let_def)
  with j show ?thesis by blast
qed

theorem lru_evicts_least_recent_witness:
  "\<exists>vm'. lru_access init [lru_example] 6 (0, 10, 0) =
     Inr (vm', [lru_example\<lparr>entries := [(7, 0, 5), (9, 0, 4), (10, 0, 6)]\<rparr>])"
proof -
  let ?es = "entries ([lru_example] ! 0)"
  have h: "0 < length [lru_example]" "map_of ?es 10 = None" "isFull ([lru_example] ! 0)"
    "?es \<noteq> []" "\<forall>x\<in>set ?es. last_access x < maxsize" "distinct (map fst ?es)"
    by (simp_all add: lru_example_def isFull_def pow2_def last_access_def maxsize_def)
  from lru_evicts_least_recent [OF h, of init 6 0] obtain j vm' where j: "j < length ?es"
    "\<forall>j'<length ?es. last_access (?es ! j) \<le> last_access (?es ! j')"
    and a: "lru_access init [lru_example] 6 (0, 10, 0) =
       Inr (vm', [lru_example][0 := ([lru_example] ! 0)\<lparr>entries := AList.update 10 (0, 6)
         (AList.delete (fst (?es ! j)) ?es)\<rparr>])"
    by blast
  from j(1) have "j = 0 \<or> j = 1 \<or> j = 2" by (auto simp: lru_example_def)
  moreover have "1 < length ?es" by (simp add: lru_example_def)
  with j(2) have "last_access (?es ! j) \<le> last_access (?es ! 1)" by blast
  ultimately have "j = 1" by (auto simp: lru_example_def last_access_def)
  with a show ?thesis by (intro exI [of _ vm']) (simp add: lru_example_def)
qed

subsection \<open>The victim of the OPT simulation\<close>

lemma filter_nth_ex:
  "jf < length (filter P es) \<Longrightarrow>
   \<exists>j<length es. es ! j = filter P es ! jf \<and>
     (\<forall>j'<j. P (es ! j') \<longrightarrow> (\<exists>jf'<jf. filter P es ! jf' = es ! j'))"
proof (induction es arbitrary: jf)
  case Nil
  then show ?case by simp
next
  case (Cons x es)
  show ?case
  proof (cases "P x")
    case True
    show ?thesis
    proof (cases jf)
      case 0
      with True show ?thesis by (intro exI [of _ 0]) simp
    next
      case (Suc m)
      with True Cons.prems have "m < length (filter P es)" by simp
      from Cons.IH [OF this] obtain j where j: "j < length es" "es ! j = filter P es ! m"
        "\<forall>j'<j. P (es ! j') \<longrightarrow> (\<exists>jf'<m. filter P es ! jf' = es ! j')" by blast
      have "\<forall>j'<Suc j. P ((x # es) ! j') \<longrightarrow> (\<exists>jf'<jf. filter P (x # es) ! jf' = (x # es) ! j')"
      proof (intro allI impI)
        fix j' assume a: "j' < Suc j" "P ((x # es) ! j')"
        show "\<exists>jf'<jf. filter P (x # es) ! jf' = (x # es) ! j'"
        proof (cases j')
          case 0
          with True Suc show ?thesis by (intro exI [of _ 0]) simp
        next
          case (Suc j'')
          with a j(3) obtain jf' where "jf' < m" "filter P es ! jf' = es ! j''" by auto
          with True Suc \<open>jf = Suc m\<close> show ?thesis by (intro exI [of _ "Suc jf'"]) simp
        qed
      qed
      with j(1,2) True Suc show ?thesis by (intro exI [of _ "Suc j"]) simp
    qed
  next
    case False
    with Cons.prems have "jf < length (filter P es)" by simp
    from Cons.IH [OF this] obtain j where j: "j < length es" "es ! j = filter P es ! jf"
      "\<forall>j'<j. P (es ! j') \<longrightarrow> (\<exists>jf'<jf. filter P es ! jf' = es ! j')" by blast
    have "\<forall>j'<Suc j. P ((x # es) ! j') \<longrightarrow> (\<exists>jf'<jf. filter P (x # es) ! jf' = (x # es) ! j')"
    proof (intro allI impI)
      fix j' assume a: "j' < Suc j" "P ((x # es) ! j')"
      with False obtain j'' where "j' = Suc j''" by (cases j') auto
      with a j(3) False show "\<exists>jf'<jf. filter P (x # es) ! jf' = (x # es) ! j'" by auto
    qed
    with j(1,2) False show ?thesis by (intro exI [of _ "Suc j"]) simp
  qed
qed

lemma opt_scan_settled:
  assumes "lru < maxsize" and "\<forall>x\<in>set es. map_of fq (fst x) \<noteq> None"
  shows "opt_scan fq es v nxt lru =
    Inr (lru_scan (filter (\<lambda>x. map_of fq (fst x) = Some []) es) v lru)"
  using assms
proof (induction es arbitrary: v lru)
  case Nil
  then show ?case by simp
next
  case (Cons x es)
  obtain key d n where x: "x = (key, d, n)" by (cases x) auto
  from Cons.prems(2) x obtain uses where u: "map_of fq key = Some uses" by auto
  show ?case
  proof (cases "uses = [] \<and> n < lru")
    case True
    with Cons.prems have "n < maxsize" by simp
    from Cons.IH [OF this] Cons.prems(2) True x u show ?thesis by simp
  next
    case False
    with Cons.IH [OF Cons.prems(1)] Cons.prems x u show ?thesis by auto
  qed
qed

lemma opt_scan_never_again:
  assumes "\<forall>x\<in>set es. last_access x < maxsize"
    and "\<forall>x\<in>set es. map_of fq (fst x) \<noteq> None"
    and "\<exists>x\<in>set es. map_of fq (fst x) = Some []"
  shows "opt_scan fq es v nxt maxsize =
    Inr (lru_scan (filter (\<lambda>x. map_of fq (fst x) = Some []) es) None maxsize)"
  using assms
proof (induction es arbitrary: v nxt)
  case Nil
  then show ?case by simp
next
  case (Cons x es)
  obtain key d n where x: "x = (key, d, n)" by (cases x) auto
  from Cons.prems(2) x obtain uses where u: "map_of fq key = Some uses" by auto
  from Cons.prems(1) x have n: "n < maxsize" by (simp add: last_access_def)
  show ?case
  proof (cases "uses = []")
    case True
    from opt_scan_settled [OF n, of es fq "Some key" nxt] Cons.prems(2) True x u n
    show ?thesis by simp
  next
    case False
    with Cons.prems(3) x u have ex: "\<exists>x\<in>set es. map_of fq (fst x) = Some []" by auto
    from Cons.prems have "\<forall>x\<in>set es. last_access x < maxsize"
      "\<forall>x\<in>set es. map_of fq (fst x) \<noteq> None" by simp_all
    from Cons.IH [OF this ex] False x u show ?thesis by simp
  qed
qed

lemma opt_scan_farthest:
  assumes "\<forall>x\<in>set es. \<exists>uses. map_of fq (fst x) = Some uses \<and> uses \<noteq> []"
  shows "(opt_scan fq es v nxt maxsize = Inr v \<and>
      (\<forall>x\<in>set es. int (last (the (map_of fq (fst x)))) \<le> nxt)) \<or>
    (\<exists>j<length es. opt_scan fq es v nxt maxsize = Inr (Some (fst (es ! j))) \<and>
       nxt < int (last (the (map_of fq (fst (es ! j))))) \<and>
       (\<forall>j'<length es. last (the (map_of fq (fst (es ! j')))) \<le>
          last (the (map_of fq (fst (es ! j))))) \<and>
       (\<forall>j'<j. last (the (map_of fq (fst (es ! j')))) <
          last (the (map_of fq (fst (es ! j))))))"
  using assms
proof (induction es arbitrary: v nxt)
  case Nil
  then show ?case by simp
next
  case (Cons x es)
  obtain key d n where x: "x = (key, d, n)" by (cases x) auto
  from Cons.prems x obtain uses where u: "map_of fq key = Some uses" "uses \<noteq> []" by auto
  let ?nx = "\<lambda>y. last (the (map_of fq (fst y)))"
  from Cons.prems have p: "\<forall>x\<in>set es. \<exists>uses. map_of fq (fst x) = Some uses \<and> uses \<noteq> []"
    by simp
  have nx: "?nx x = last uses" using x u by simp
  show ?case
  proof (cases "nxt < int (last uses)")
    case True
    then have s: "opt_scan fq (x # es) v nxt maxsize =
      opt_scan fq es (Some key) (int (last uses)) maxsize"
      using x u by simp
    from Cons.IH [OF p, of "Some key" "int (last uses)"] show ?thesis
    proof
      assume a: "opt_scan fq es (Some key) (int (last uses)) maxsize = Inr (Some key) \<and>
        (\<forall>x\<in>set es. int (?nx x) \<le> int (last uses))"
      have "opt_scan fq (x # es) v nxt maxsize = Inr (Some (fst ((x # es) ! 0)))"
        using a s x by simp
      moreover have "nxt < int (?nx ((x # es) ! 0))" using True nx by simp
      moreover have "\<forall>j'<length (x # es). ?nx ((x # es) ! j') \<le> ?nx ((x # es) ! 0)"
        using a nx by (auto simp: nth_Cons' dest: nth_mem)
      ultimately show ?thesis by (intro disjI2 exI [of _ 0]) simp
    next
      assume "\<exists>j<length es. opt_scan fq es (Some key) (int (last uses)) maxsize =
          Inr (Some (fst (es ! j))) \<and> int (last uses) < int (?nx (es ! j)) \<and>
          (\<forall>j'<length es. ?nx (es ! j') \<le> ?nx (es ! j)) \<and>
          (\<forall>j'<j. ?nx (es ! j') < ?nx (es ! j))"
      then obtain j where j: "j < length es"
        "opt_scan fq es (Some key) (int (last uses)) maxsize = Inr (Some (fst (es ! j)))"
        "int (last uses) < int (?nx (es ! j))"
        "\<forall>j'<length es. ?nx (es ! j') \<le> ?nx (es ! j)"
        "\<forall>j'<j. ?nx (es ! j') < ?nx (es ! j)" by blast
      have "opt_scan fq (x # es) v nxt maxsize = Inr (Some (fst ((x # es) ! Suc j)))"
        using j s by simp
      moreover have "nxt < int (?nx ((x # es) ! Suc j))" using j True by simp
      moreover have "\<forall>j'<length (x # es). ?nx ((x # es) ! j') \<le> ?nx ((x # es) ! Suc j)"
        using j nx by (auto simp: nth_Cons' less_Suc_eq_0_disj)
      moreover have "\<forall>j'<Suc j. ?nx ((x # es) ! j') < ?nx ((x # es) ! Suc j)"
        using j nx by (auto simp: nth_Cons' less_Suc_eq_0_disj)
      ultimately show ?thesis using j(1) by (intro disjI2 exI [of _ "Suc j"]) simp
    qed
  next
    case False
    then have s: "opt_scan fq (x # es) v nxt maxsize = opt_scan fq es v nxt maxsize"
      using x u by simp
    from Cons.IH [OF p, of v nxt] show ?thesis
    proof
      assume "opt_scan fq es v nxt maxsize = Inr v \<and> (\<forall>x\<in>set es. int (?nx x) \<le> nxt)"
      then show ?thesis using False s nx by auto
    next
      assume "\<exists>j<length es. opt_scan fq es v nxt maxsize = Inr (Some (fst (es ! j))) \<and>
          nxt < int (?nx (es ! j)) \<and>
          (\<forall>j'<length es. ?nx (es ! j') \<le> ?nx (es ! j)) \<and>
          (\<forall>j'<j. ?nx (es ! j') < ?nx (es ! j))"
      then obtain j where j: "j < length es"
        "opt_scan fq es v nxt maxsize = Inr (Some (fst (es ! j)))"
        "nxt < int (?nx (es ! j))"
        "\<forall>j'<length es. ?nx (es ! j') \<le> ?nx (es ! j)"
        "\<forall>j'<j. ?nx (es ! j') < ?nx (es ! j)" by blast
      have "opt_scan fq (x # es) v nxt maxsize = Inr (Some (fst ((x # es) ! Suc j)))"
        using j s by simp
      moreover have "nxt < int (?nx ((x # es) ! Suc j))" using j by simp
      moreover have "\<forall>j'<length (x # es). ?nx ((x # es) ! j') \<le> ?nx ((x # es) ! Suc j)"
        using j nx False by (auto simp: nth_Cons' less_Suc_eq_0_disj)
      moreover have "\<forall>j'<Suc j. ?nx ((x # es) ! j') < ?nx ((x # es) ! Suc j)"
        using j nx False by (auto simp: nth_Cons' less_Suc_eq_0_disj)
      ultimately show ?thesis using j(1) by (intro disjI2 exI [of _ "Suc j"]) simp
    qed
  qed
qed

lemma opt_victim_result:
  assumes "entries t \<noteq> []"
    and "\<forall>x\<in>set (entries t). last_access x < maxsize"
    and "\<forall>x\<in>set (entries t). map_of (freq t) (fst x) \<noteq> None"
  shows "\<exists>j<length (entries t). opt_victim t = Inr (Some (fst (entries t ! j))) \<and>
     (if \<exists>x\<in>set (entries t). never_again t x
      then never_again t (entries t ! j) \<and>
        (\<forall>j'<length (entries t). never_again t (entries t ! j') \<longrightarrow>
           last_access (entries t ! j) \<le> last_access (entries t ! j')) \<and>
        (\<forall>j'<j. never_again t (entries t ! j') \<longrightarrow>
           last_access (entries t ! j) < last_access (entries t ! j'))
      else
        (\<forall>j'<length (entries t). next_access t (entries t ! j') \<le> next_access t (entries t ! j)) \<and>
        (\<forall>j'<j. next_access t (entries t ! j') < next_access t (entries t ! j)))"
proof (cases "\<exists>x\<in>set (entries t). never_again t x")
  case True
  let ?P = "\<lambda>x. map_of (freq t) (fst x) = Some []"
  let ?fs = "filter ?P (entries t)"
  from True have ex: "\<exists>x\<in>set (entries t). ?P x" by (simp add: never_again_def)
  from opt_scan_never_again [OF assms(2,3) ex]
  have v: "opt_victim t = Inr (lru_scan ?fs None maxsize)" by (simp add: opt_victim_def)
  from ex obtain y where "y \<in> set ?fs" by auto
  with assms(2) have "\<not> (\<forall>x\<in>set ?fs. maxsize \<le> last_access x)" by fastforce
  with lru_scan_result [of ?fs None maxsize] obtain jf where jf: "jf < length ?fs"
    "lru_scan ?fs None maxsize = Some (fst (?fs ! jf))"
    "\<forall>j'<length ?fs. last_access (?fs ! jf) \<le> last_access (?fs ! j')"
    "\<forall>j'<jf. last_access (?fs ! jf) < last_access (?fs ! j')" by blast
  from filter_nth_ex [OF jf(1)] obtain j where j: "j < length (entries t)"
    "entries t ! j = ?fs ! jf"
    "\<forall>j'<j. ?P (entries t ! j') \<longrightarrow> (\<exists>jf'<jf. ?fs ! jf' = entries t ! j')" by blast
  have 1: "never_again t (entries t ! j)"
    using j(2) jf(1) nth_mem [OF jf(1)] by (simp add: never_again_def)
  have 2: "\<forall>j'<length (entries t). never_again t (entries t ! j') \<longrightarrow>
           last_access (entries t ! j) \<le> last_access (entries t ! j')"
  proof (intro allI impI)
    fix j' assume "j' < length (entries t)" "never_again t (entries t ! j')"
    then have "entries t ! j' \<in> set ?fs" by (simp add: never_again_def)
    then obtain m where "m < length ?fs" "?fs ! m = entries t ! j'"
      unfolding in_set_conv_nth by blast
    with jf(3) j(2) show "last_access (entries t ! j) \<le> last_access (entries t ! j')"
      by metis
  qed
  have 3: "\<forall>j'<j. never_again t (entries t ! j') \<longrightarrow>
           last_access (entries t ! j) < last_access (entries t ! j')"
  proof (intro allI impI)
    fix j' assume "j' < j" "never_again t (entries t ! j')"
    with j(3) obtain m where "m < jf" "?fs ! m = entries t ! j'"
      by (auto simp: never_again_def)
    with jf(4) j(2) show "last_access (entries t ! j) < last_access (entries t ! j')"
      by metis
  qed
  from v jf(2) j(2) have "opt_victim t = Inr (Some (fst (entries t ! j)))" by simp
  with True 1 2 3 j(1) show ?thesis by (intro exI [of _ j]) simp
next
  case False
  with assms(3) have p: "\<forall>x\<in>set (entries t). \<exists>uses. map_of (freq t) (fst x) = Some uses \<and> uses \<noteq> []"
    by (auto simp: never_again_def)
  from assms(1) have "\<not> (\<forall>x\<in>set (entries t). int (last (the (map_of (freq t) (fst x)))) \<le> - 1)"
    by (cases "entries t") auto
  with opt_scan_farthest [OF p, of None "- 1"] False show ?thesis
    unfolding opt_victim_def next_access_def by auto
qed

text \<open>
  Claim C5. When a reference misses in a full table (with at least one entry, all line
  numbers below \<^verbatim>\<open>sys.maxsize\<close>, every resident page known to \<^verbatim>\<open>freq\<close>), \<^verbatim>\<open>opt_sim\<close>
  evicts the entry at a position \<open>j\<close> such that: if some resident page is never accessed
  again, the page at \<open>j\<close> is one of those, with the smallest line number among them and a
  smaller one than each of them before it in iteration (insertion) order; otherwise its
  next access is the farthest of the table, and farther than that of every entry before
  it. The statement holds for every order of the entries.
\<close>

theorem opt_evicts_by_precedence:
  assumes "k < length tables" and "map_of (entries (tables ! k)) frame = None"
    and "isFull (tables ! k)" and "entries (tables ! k) \<noteq> []"
    and "\<forall>x\<in>set (entries (tables ! k)). last_access x < maxsize"
    and "\<forall>x\<in>set (entries (tables ! k)). map_of (freq (tables ! k)) (fst x) \<noteq> None"
    and "distinct (map fst (entries (tables ! k)))"
    and "map_of (freq (tables ! k)) frame = Some uses" and "uses \<noteq> []"
  shows "\<exists>j<length (entries (tables ! k)).
    (if \<exists>x\<in>set (entries (tables ! k)). never_again (tables ! k) x
     then never_again (tables ! k) (entries (tables ! k) ! j) \<and>
       (\<forall>j'<length (entries (tables ! k)). never_again (tables ! k) (entries (tables ! k) ! j') \<longrightarrow>
          last_access (entries (tables ! k) ! j) \<le> last_access (entries (tables ! k) ! j')) \<and>
       (\<forall>j'<j. never_again (tables ! k) (entries (tables ! k) ! j') \<longrightarrow>
          last_access (entries (tables ! k) ! j) < last_access (entries (tables ! k) ! j'))
     else
       (\<forall>j'<length (entries (tables ! k)).
          next_access (tables ! k) (entries (tables ! k) ! j') \<le>
          next_access (tables ! k) (entries (tables ! k) ! j)) \<and>
       (\<forall>j'<j. next_access (tables ! k) (entries (tables ! k) ! j') <
          next_access (tables ! k) (entries (tables ! k) ! j))) \<and>
    opt_victim (tables ! k) = Inr (Some (fst (entries (tables ! k) ! j))) \<and>
    (\<exists>vm'. opt_access vm tables i (dirty_bit, frame, k) =
       Inr (vm', tables[k := (tables ! k)\<lparr>
         freq := AList.update frame (butlast uses) (freq (tables ! k)),
         entries := AList.update frame (dirty_bit, i)
           (AList.delete (fst (entries (tables ! k) ! j)) (entries (tables ! k)))\<rparr>]))"
proof -
  let ?t = "tables ! k"
  let ?es = "entries ?t"
  from opt_victim_result [OF assms(4-6)] obtain j where j: "j < length ?es"
    and v: "opt_victim ?t = Inr (Some (fst (?es ! j)))"
    and c: "if \<exists>x\<in>set ?es. never_again ?t x
     then never_again ?t (?es ! j) \<and>
       (\<forall>j'<length ?es. never_again ?t (?es ! j') \<longrightarrow>
          last_access (?es ! j) \<le> last_access (?es ! j')) \<and>
       (\<forall>j'<j. never_again ?t (?es ! j') \<longrightarrow> last_access (?es ! j) < last_access (?es ! j'))
     else
       (\<forall>j'<length ?es. next_access ?t (?es ! j') \<le> next_access ?t (?es ! j)) \<and>
       (\<forall>j'<j. next_access ?t (?es ! j') < next_access ?t (?es ! j))"
    by blast
  from map_of_nth [OF assms(7) j] obtain d n where
    m: "map_of ?es (fst (?es ! j)) = Some (d, n)" by (cases "snd (?es ! j)") auto
  have "\<exists>vm'. opt_access vm tables i (dirty_bit, frame, k) =
       Inr (vm', tables[k := ?t\<lparr>
         freq := AList.update frame (butlast uses) (freq ?t),
         entries := AList.update frame (dirty_bit, i) (AList.delete (fst (?es ! j)) ?es)\<rparr>])"
    using assms(1-3,8,9) v m by (simp add: opt_access_def evict_def freq_pop_def Let_def)
  with j v c show ?thesis by blast
qed

theorem opt_evicts_by_precedence_witness:
  "\<exists>vm'. opt_access init [opt_example] 6 (0, 10, 0) =
     Inr (vm', [opt_example\<lparr>freq := [(7, [9, 7]), (8, []), (9, []), (10, [])],
       entries := [(7, 0, 5), (9, 0, 4), (10, 0, 6)]\<rparr>])"
proof -
  let ?t = "[opt_example] ! 0"
  let ?es = "entries ?t"
  have h: "0 < length [opt_example]" "map_of ?es 10 = None" "isFull ?t"
    "?es \<noteq> []" "\<forall>x\<in>set ?es. last_access x < maxsize"
    "\<forall>x\<in>set ?es. map_of (freq ?t) (fst x) \<noteq> None" "distinct (map fst ?es)"
    "map_of (freq ?t) 10 = Some [6]" "[6::nat] \<noteq> []"
    by (simp_all add: opt_example_def isFull_def pow2_def last_access_def maxsize_def)
  have n: "\<exists>x\<in>set ?es. never_again ?t x" "never_again ?t (?es ! 1)" "1 < length ?es"
    by (simp_all add: opt_example_def never_again_def)
  from opt_evicts_by_precedence [OF h, of init 6 0] n(1) obtain j vm' where j: "j < length ?es"
    "\<forall>j'<length ?es. never_again ?t (?es ! j') \<longrightarrow> last_access (?es ! j) \<le> last_access (?es ! j')"
    and a: "opt_access init [opt_example] 6 (0, 10, 0) =
       Inr (vm', [opt_example][0 := ?t\<lparr>
         freq := AList.update 10 (butlast [6]) (freq ?t),
         entries := AList.update 10 (0, 6) (AList.delete (fst (?es ! j)) ?es)\<rparr>])"
    by (auto split: if_splits)
  from j(1) have "j = 0 \<or> j = 1 \<or> j = 2" by (auto simp: opt_example_def)
  moreover from j(2) n(2,3) have "last_access (?es ! j) \<le> last_access (?es ! 1)" by blast
  ultimately have "j = 1" by (auto simp: opt_example_def last_access_def)
  with a show ?thesis by (intro exI [of _ vm']) (simp add: opt_example_def)
qed

subsection \<open>The page size and the shift\<close>

lemma bit_length_bounds: "0 < n \<Longrightarrow> 2 ^ (bit_length n - 1) \<le> n \<and> n < 2 ^ bit_length n"
proof (induction n rule: bit_length.induct)
  case (1 n)
  show ?case
  proof (cases "n div 2 = 0")
    case True
    with 1(2) have "n = 1" by (simp add: div_eq_0_iff) 
    then show ?thesis by simp
  next
    case False
    with 1 have IH: "2 ^ (bit_length (n div 2) - 1) \<le> n div 2" "n div 2 < 2 ^ bit_length (n div 2)"
      by simp_all
    from False have b: "0 < bit_length (n div 2)"
      by (subst bit_length.simps) simp
    have s: "bit_length n = Suc (bit_length (n div 2))"
      using 1(2) by (subst bit_length.simps) simp
    from b have "(2::nat) ^ bit_length (n div 2) = 2 * 2 ^ (bit_length (n div 2) - 1)"
      by (cases "bit_length (n div 2)") simp_all
    with IH(1) have "2 ^ bit_length (n div 2) \<le> n" by linarith
    moreover from IH(2) have "n < 2 ^ Suc (bit_length (n div 2))" by simp
    ultimately show ?thesis using s by simp
  qed
qed

lemma three_not_power: "(3::int) \<noteq> 2 ^ k"
proof (cases k)
  case 0
  then show ?thesis by simp
next
  case (Suc m)
  have "even ((2::int) ^ Suc m)" by simp
  moreover have "odd (3::int)" by simp
  ultimately show ?thesis using Suc by metis
qed

lemma power_two_unique:
  assumes "(2::int) ^ s \<le> 2 ^ j" "(2::int) ^ j < 2 ^ Suc s"
  shows "j = s"
proof -
  from assms(1) have "s \<le> j" by simp
  moreover from assms(2) have "j < Suc s" using power_strict_increasing_iff [of "2::int" j "Suc s"] by simp
  ultimately show ?thesis by simp
qed

lemma parse_line_success:
  assumes "split_space line = op # addr # (c # cs) # rest" and "int16 addr = Inr a"
    and "offset vm = Some s" and "0 \<le> s" and "int_of_char c = Inr k"
  shows "parse_line vm line = Inr (if op = ''l'' then 0 else 1, a div 2 ^ nat s, k)"
  using assms by (simp add: parse_line_def shift_right_def)

lemma parse_line_Inr_D:
  assumes "parse_line vm line = Inr (b, f, k)"
  shows "\<exists>op addr c cs rest a s. split_space line = op # addr # (c # cs) # rest \<and>
    int16 addr = Inr a \<and> offset vm = Some s \<and> 0 \<le> s \<and> int_of_char c = Inr k \<and>
    b = (if op = ''l'' then 0 else 1) \<and> f = a div 2 ^ nat s"
proof (cases "split_space line")
  case Nil
  with assms show ?thesis by (simp add: parse_line_def)
next
  case 1: (Cons op r1)
  show ?thesis
  proof (cases r1)
    case Nil
    with assms 1 show ?thesis by (simp add: parse_line_def)
  next
    case 2: (Cons addr r2)
    from assms 1 2 obtain a where a: "int16 addr = Inr a"
      by (cases "int16 addr") (simp_all add: parse_line_def)
    from assms 1 2 a obtain s where s: "offset vm = Some s"
      by (cases "offset vm") (simp_all add: parse_line_def)
    from assms 1 2 a s have s0: "0 \<le> s"
      by (cases "0 \<le> s") (simp_all add: parse_line_def shift_right_def)
    show ?thesis
    proof (cases r2)
      case Nil
      with assms 1 2 a s s0 show ?thesis by (simp add: parse_line_def shift_right_def)
    next
      case 3: (Cons pid r3)
      show ?thesis
      proof (cases pid)
        case Nil
        with assms 1 2 3 a s s0 show ?thesis by (simp add: parse_line_def shift_right_def)
      next
        case 4: (Cons c cs)
        from assms 1 2 3 4 a s s0 obtain k' where k: "int_of_char c = Inr k'"
          by (cases "int_of_char c") (simp_all add: parse_line_def shift_right_def)
        from parse_line_success [of line op addr c cs r3 a vm s k'] 1 2 3 4 a s s0 k assms
        have "b = (if op = ''l'' then 0 else 1) \<and> f = a div 2 ^ nat s \<and> k = k'" by simp
        with 1 2 3 4 a s s0 k show ?thesis by simp
      qed
    qed
  qed
qed

lemma parse_line_frame:
  assumes "parse_line vm line = Inr (b, frame, idx)" and "offset vm = Some s"
  shows "0 \<le> s \<and> (\<exists>a. int16 (split_space line ! 1) = Inr a \<and> frame = a div 2 ^ nat s)"
proof -
  from parse_line_Inr_D [OF assms(1)] obtain op addr c cs rest a s' where
    "split_space line = op # addr # (c # cs) # rest" "int16 addr = Inr a"
    "offset vm = Some s'" "0 \<le> s'" "frame = a div 2 ^ nat s'" by blast
  with assms(2) show ?thesis by simp
qed

text \<open>
  Against claim C9 as stated: the page size 3 is not a power of two, and \<^verbatim>\<open>parse_args\<close>
  accepts it, with the shift 11.
\<close>

theorem page_size_three_accepted:
  "(\<forall>k. (3::int) \<noteq> 2 ^ k) \<and> pagesize three_kb = Some 3 \<and>
   map_sum id offset (parse_args init three_kb) = Inr (Some 11)"
  by (simp add: three_not_power three_kb_def parse_args_def init_def int_log2_def Let_def)

text \<open>
  Claim C9, amended. For a negative page size \<^verbatim>\<open>parse_args\<close> raises \<^verbatim>\<open>ValueError\<close>. For
  the page size 0 it succeeds and leaves the shift as it was. For every positive page size
  \<open>p\<close> below \<open>2 ^ 47\<close> (the range in which \<^verbatim>\<open>int(math.log2(p))\<close> is the exact integer
  part of the logarithm) it succeeds, whether \<open>p\<close> is a power of two or not: the shift
  is \<open>s + 10\<close> for the \<open>s\<close> with \<open>2 ^ s \<le> p < 2 ^ (s + 1)\<close>, so it is \<open>j + 10\<close> when
  \<open>p = 2 ^ j\<close>, and every line that decodes has the page number
  \<open>address div 2 ^ (s + 10)\<close>.
\<close>

theorem page_size_shift:
  assumes "pagesize c = Some p"
  shows "(p < 0 \<longrightarrow> parse_args vm c = Inl ValueError) \<and>
    (p = 0 \<longrightarrow> (\<exists>vm'. parse_args vm c = Inr vm' \<and> offset vm' = offset vm)) \<and>
    (0 < p \<and> p < 2 ^ 47 \<longrightarrow>
      (\<exists>vm' s. parse_args vm c = Inr vm' \<and> page_size vm' = Some p \<and>
         offset vm' = Some (int s + 10) \<and> 2 ^ s \<le> p \<and> p < 2 ^ Suc s \<and>
         (\<forall>j. p = 2 ^ j \<longrightarrow> offset vm' = Some (int j + 10)) \<and>
         (\<forall>line b frame idx. parse_line vm' line = Inr (b, frame, idx) \<longrightarrow>
            (\<exists>a. int16 (split_space line ! 1) = Inr a \<and> frame = a div 2 ^ (s + 10)))))"
proof (intro conjI impI)
  assume "p < 0"
  with assms show "parse_args vm c = Inl ValueError"
    by (simp add: parse_args_def int_log2_def Let_def)
next
  assume "p = 0"
  with assms show "\<exists>vm'. parse_args vm c = Inr vm' \<and> offset vm' = offset vm"
    by (simp add: parse_args_def Let_def)
next
  assume p: "0 < p \<and> p < 2 ^ 47"
  define s where "s = bit_length (nat p) - 1"
  from p bit_length_bounds [of "nat p"]
  have b: "2 ^ s \<le> nat p" "nat p < 2 ^ bit_length (nat p)" by (simp_all add: s_def)
  from b(1) have pos: "0 < bit_length (nat p)"
    using p by (subst bit_length.simps) simp
  then have ss: "bit_length (nat p) = Suc s" by (simp add: s_def)
  from b(1) have "int (2 ^ s) \<le> int (nat p)" by (simp only: of_nat_le_iff)
  with p have lo: "2 ^ s \<le> p" by simp
  from b(2) ss have "int (nat p) < int (2 ^ Suc s)" by (simp only: of_nat_less_iff)
  with p have hi: "p < 2 ^ Suc s" by simp
  obtain vm' where vm': "parse_args vm c = Inr vm'" "page_size vm' = Some p"
    "offset vm' = Some (int s + 10)"
    using assms p ss by (simp add: parse_args_def int_log2_def Let_def)
  have pw: "\<forall>j. p = 2 ^ j \<longrightarrow> offset vm' = Some (int j + 10)"
    using lo hi vm'(3) power_two_unique by blast
  have fr: "\<forall>line b frame idx. parse_line vm' line = Inr (b, frame, idx) \<longrightarrow>
            (\<exists>a. int16 (split_space line ! 1) = Inr a \<and> frame = a div 2 ^ (s + 10))"
  proof (intro allI impI)
    fix line b frame idx
    assume "parse_line vm' line = Inr (b, frame, idx)"
    from parse_line_frame [OF this vm'(3)]
    show "\<exists>a. int16 (split_space line ! 1) = Inr a \<and> frame = a div 2 ^ (s + 10)"
      by (simp add: nat_add_distrib)
  qed
  from vm' lo hi pw fr
  show "\<exists>vm' s. parse_args vm c = Inr vm' \<and> page_size vm' = Some p \<and>
         offset vm' = Some (int s + 10) \<and> 2 ^ s \<le> p \<and> p < 2 ^ Suc s \<and>
         (\<forall>j. p = 2 ^ j \<longrightarrow> offset vm' = Some (int j + 10)) \<and>
         (\<forall>line b frame idx. parse_line vm' line = Inr (b, frame, idx) \<longrightarrow>
            (\<exists>a. int16 (split_space line ! 1) = Inr a \<and> frame = a div 2 ^ (s + 10)))"
    by blast
qed

theorem page_size_shift_witness:
  "parse_args init (three_kb\<lparr>pagesize := Some (- 1)\<rparr>) = Inl ValueError \<and>
   (\<exists>vm'. parse_args init (three_kb\<lparr>pagesize := Some 0\<rparr>) = Inr vm' \<and> offset vm' = offset init) \<and>
   (\<exists>vm' s. parse_args init (three_kb\<lparr>pagesize := Some 4\<rparr>) = Inr vm' \<and>
      offset vm' = Some (int s + 10) \<and> 2 ^ s \<le> (4::int) \<and> (4::int) < 2 ^ Suc s)"
proof -
  have 1: "parse_args init (three_kb\<lparr>pagesize := Some (- 1)\<rparr>) = Inl ValueError"
    using page_size_shift [of "three_kb\<lparr>pagesize := Some (- 1)\<rparr>" "- 1" init,
        THEN conjunct1, THEN mp]
    by simp
  have 2: "\<exists>vm'. parse_args init (three_kb\<lparr>pagesize := Some 0\<rparr>) = Inr vm' \<and>
      offset vm' = offset init"
    using page_size_shift [of "three_kb\<lparr>pagesize := Some 0\<rparr>" 0 init,
        THEN conjunct2, THEN conjunct1, THEN mp]
    by simp
  have p: "0 < (4::int) \<and> (4::int) < 2 ^ 47" by simp
  have c: "pagesize (three_kb\<lparr>pagesize := Some 4\<rparr>) = Some 4" by simp
  from page_size_shift [OF c, of init, THEN conjunct2, THEN conjunct2, THEN mp, OF p]
  obtain vm' s where "parse_args init (three_kb\<lparr>pagesize := Some 4\<rparr>) = Inr vm'"
    "offset vm' = Some (int s + 10)" "2 ^ s \<le> (4::int)" "(4::int) < 2 ^ Suc s"
    by (elim exE conjE)
  then have 3: "\<exists>vm' s. parse_args init (three_kb\<lparr>pagesize := Some 4\<rparr>) = Inr vm' \<and>
      offset vm' = Some (int s + 10) \<and> 2 ^ s \<le> (4::int) \<and> (4::int) < 2 ^ Suc s"
    by (intro exI conjI)
  from 1 2 3 show ?thesis by (intro conjI)
qed

subsection \<open>Decoding a line\<close>

lemma char_eq_code: "c = d \<longleftrightarrow> (of_char c :: nat) = of_char d"
  by (simp add: of_char_eq_iff)

lemma int_of_char_fails: "isl (int_of_char c) \<longleftrightarrow> c \<notin> set ''0123456789''"
proof -
  have "c \<in> set ''0123456789'' \<longleftrightarrow> (of_char c :: nat) \<in> {48, 49, 50, 51, 52, 53, 54, 55, 56, 57}"
    by (simp add: char_eq_code [of c])
  also have "\<dots> \<longleftrightarrow> 48 \<le> (of_char c :: nat) \<and> (of_char c :: nat) \<le> 57"
    by (simp only: insert_iff empty_iff) presburger
  finally show ?thesis by (auto simp: int_of_char_def Let_def)
qed

lemma int_of_char_value: "int_of_char c = Inr k \<Longrightarrow> k < 10 \<and> (of_char c :: nat) = 48 + k"
  by (auto simp: int_of_char_def Let_def split: if_splits)

text \<open>
  Against claim C8 as stated: the line \<^verbatim>\<open>s 1f 2\<close> meets the failure condition of the
  specification (its third field starts with 2), and \<^verbatim>\<open>parse_line\<close> decodes it.
\<close>

theorem digit_two_decodes:
  "spec_parse_error ''s 1f 2'' \<and>
   parse_line (configured ''lru'' 8 ''1:1'' []) ''s 1f 2'' = Inr (1, 0, 2)"
  by (simp add: spec_parse_error_def spec_fields_def spec_hex_def parse_eval
      configured_def init_def)

text \<open>
  Claim C8, amended. With the shift configured, \<^verbatim>\<open>parse_line\<close> raises exactly when the
  line, cut at every single space, has fewer than three fields, or \<^verbatim>\<open>int(., 16)\<close>
  rejects the second field, or the third field is empty or does not start with a digit
  from 0 to 9. When it does not raise, it returns the dirty bit 0 for the first field
  \<^verbatim>\<open>l\<close> and 1 otherwise, the address shifted right, and the value of that digit; the
  function only computes this result.
\<close>

theorem parse_line_fails_iff:
  assumes "offset vm = Some s" and "0 \<le> s"
  shows "(isl (parse_line vm line) \<longleftrightarrow>
      length (split_space line) < 3 \<or> isl (int16 (split_space line ! 1)) \<or>
      split_space line ! 2 = [] \<or> hd (split_space line ! 2) \<notin> set ''0123456789'') \<and>
    (\<forall>b f k. parse_line vm line = Inr (b, f, k) \<longrightarrow>
       b = (if split_space line ! 0 = ''l'' then 0 else 1) \<and>
       (\<exists>a. int16 (split_space line ! 1) = Inr a \<and> f = a div 2 ^ nat s) \<and>
       k < 10 \<and> (of_char (hd (split_space line ! 2)) :: nat) = 48 + k)"
proof (intro conjI allI impI)
  show "isl (parse_line vm line) \<longleftrightarrow>
      length (split_space line) < 3 \<or> isl (int16 (split_space line ! 1)) \<or>
      split_space line ! 2 = [] \<or> hd (split_space line ! 2) \<notin> set ''0123456789''"
  proof (cases "split_space line")
    case Nil
    then show ?thesis by (simp add: parse_line_def)
  next
    case 1: (Cons op r1)
    show ?thesis
    proof (cases r1)
      case Nil
      with 1 show ?thesis by (simp add: parse_line_def)
    next
      case 2: (Cons addr r2)
      show ?thesis
      proof (cases r2)
        case Nil
        with 1 2 assms show ?thesis
          by (simp add: parse_line_def shift_right_def split: sum.splits)
      next
        case 3: (Cons pid r3)
        show ?thesis
        proof (cases "int16 addr")
          case (Inl e)
          with 1 2 3 show ?thesis by (simp add: parse_line_def)
        next
          case (Inr a)
          show ?thesis
          proof (cases pid)
            case Nil
            with 1 2 3 Inr assms show ?thesis by (simp add: parse_line_def shift_right_def)
          next
            case (Cons c cs)
            with 1 2 3 Inr assms int_of_char_fails [of c] show ?thesis
              by (cases "int_of_char c") (simp_all add: parse_line_def shift_right_def)
          qed
        qed
      qed
    qed
  qed
next
  fix b f k
  assume a: "parse_line vm line = Inr (b, f, k)"
  from parse_line_Inr_D [OF a] obtain op addr c cs rest a' s' where
    d: "split_space line = op # addr # (c # cs) # rest" "int16 addr = Inr a'"
    "offset vm = Some s'" "int_of_char c = Inr k"
    "b = (if op = ''l'' then 0 else 1)" "f = a' div 2 ^ nat s'" by blast
  from d(1,5) show "b = (if split_space line ! 0 = ''l'' then 0 else 1)" by simp
  from d(1,2,3,6) assms(1)
  show "\<exists>a. int16 (split_space line ! 1) = Inr a \<and> f = a div 2 ^ nat s" by simp
  from int_of_char_value [OF d(4)] d(1)
  show "k < 10" "(of_char (hd (split_space line ! 2)) :: nat) = 48 + k" by simp_all
qed

theorem parse_line_fails_iff_witness:
  "offset (configured ''lru'' 8 ''1:1'' []) = Some 12 \<and>
   \<not> isl (parse_line (configured ''lru'' 8 ''1:1'' []) ''l 0x3000 1'') \<and>
   isl (parse_line (configured ''lru'' 8 ''1:1'' []) ''l 0x3000'') \<and>
   parse_line (configured ''lru'' 8 ''1:1'' []) ''s 0x3fff 7'' = Inr (1, 3, 7)"
proof -
  let ?vm = "configured ''lru'' 8 ''1:1'' []"
  have o: "offset ?vm = Some 12" "(0::int) \<le> 12" by (simp_all add: configured_def init_def)
  note T = parse_line_fails_iff [OF o]
  have 1: "\<not> isl (parse_line ?vm ''l 0x3000 1'')"
    unfolding T [of "''l 0x3000 1''", THEN conjunct1]
    by (simp add: split_space_def int16_def strip_def is_space_def unsigned16_def number_def
        digit_value_def)
  have 2: "isl (parse_line ?vm ''l 0x3000'')"
    unfolding T [of "''l 0x3000''", THEN conjunct1] by (simp add: split_space_def)
  have 3: "parse_line ?vm ''s 0x3fff 7'' = Inr (1, 3, 7)"
    by (simp add: parse_eval configured_def init_def)
  from T [of "''s 0x3fff 7''", THEN conjunct2, THEN spec, THEN spec, THEN spec, THEN mp, OF 3]
  have "(7::nat) < 10" by (elim conjE)
  with o(1) 1 2 3 show ?thesis by (intro conjI)
qed

subsection \<open>Capacities that are not whole, and the capacity 0\<close>

lemma split_memory_thirds:
  "split_memory third_and_two_thirds =
   Inr (Tables [new_page_table (Float 7505999378950826 (- 51)),
                new_page_table (Float 7505999378950826 (- 50))])"
  by (simp add: third_and_two_thirds_def split_memory_def configured_def init_def
      int_of_char_def float_eval)

text \<open>
  Claim C2 at the split \<^verbatim>\<open>1:2\<close> of 10 frames: \<^verbatim>\<open>split_memory\<close> gives the tables the
  capacities \<open>3.333333333333333\<close> and \<open>6.666666666666666\<close>, the rounded products, where
  the claim has 3 and 6.
\<close>

theorem split_memory_keeps_fraction:
  "map_sum id (case_split_result (map (\<lambda>t. float_val (frames t))) [])
     (split_memory third_and_two_thirds) =
   Inr [3752999689475413 / 1125899906842624, 3752999689475413 / 562949953421312]"
  by (simp add: split_memory_thirds new_page_table_def pow2_def)

text \<open>
  Claim C1 on the same command line: after four different pages of process 0 its table
  holds four entries, more than its capacity; nothing was evicted and no disk write was
  counted.
\<close>

theorem table_grows_past_capacity:
  "map_sum id (\<lambda>(vm, tables). (page_faults vm, disk_writes vm,
       map (\<lambda>t. (float_val (frames t), length (entries t))) tables))
     (lru_run third_and_two_thirds) =
   Inr (4, 0, [(3752999689475413 / 1125899906842624, 4),
               (3752999689475413 / 562949953421312, 0)])"
  by (simp add: lru_run_def split_memory_thirds)
    (simp add: third_and_two_thirds_def lru_line_def parse_eval access_eval configured_def
      init_def pow2_def)

lemma split_memory_nothing:
  "split_memory (nothing_for_first alg) =
   Inr (Tables [new_page_table (Float 0 0), new_page_table (Float 4503599627370496 (- 50))])"
  by (simp add: nothing_for_first_def split_memory_def configured_def init_def
      int_of_char_def float_eval)

text \<open>
  Claim C4 at the split \<^verbatim>\<open>0:1\<close>: the first table has the capacity 0, and the first
  reference to it ends either simulation with a \<^verbatim>\<open>KeyError\<close>: the victim search runs
  over an empty table and the lookup of \<^verbatim>\<open>None\<close> raises.
\<close>

theorem capacity_zero_raises:
  "lru_sim (nothing_for_first ''lru'') = Inl KeyError \<and>
   opt_sim (nothing_for_first ''opt'') = Inl KeyError"
proof -
  have "lru_run (nothing_for_first ''lru'') = Inl KeyError"
    by (simp add: lru_run_def split_memory_nothing)
      (simp add: nothing_for_first_def lru_line_def parse_eval access_eval configured_def
        init_def pow2_def)
  moreover have "opt_run (nothing_for_first ''opt'') = Inl KeyError"
    by (simp add: opt_run_def split_memory_nothing)
      (simp add: nothing_for_first_def opt_line_def first_access_def freq_add_def
        reverse_freq_def parse_eval access_eval configured_def init_def pow2_def)
  ultimately show ?thesis by (simp add: lru_sim_def opt_sim_def)
qed

subsection \<open>The optimal policy against the least recently used\<close>

































































end
